theory Spec2Isabelle
  imports Complex_Main "HOL-Library.AList"
begin

section \<open>Python values used by the annotation tool\<close>

text \<open>
  A Python \<open>str\<close> is a sequence of Unicode code points, and \<open>len\<close> and slicing count
  code points. A code point is modelled as a natural number and a string as the list of
  its code points. \<open>pystr_of\<close> turns an ASCII literal into such a string.
\<close>

type_synonym codepoint = nat
type_synonym pystr = "codepoint list"

definition pystr_of :: "string \<Rightarrow> pystr" where
  "pystr_of s = map of_char s"

text \<open>
  Python slicing \<open>xs[i:j]\<close> with step 1 never raises: a negative bound counts from the
  end, and every bound is clamped into \<open>0..len(xs)\<close>. \<open>xs[i:]\<close> runs to the end.
\<close>

definition slice_index :: "int \<Rightarrow> nat \<Rightarrow> nat" where
  "slice_index i n =
     (if i < 0 then (if i + int n < 0 then 0 else nat (i + int n))
      else if int n < i then n else nat i)"

definition slice :: "'a list \<Rightarrow> int \<Rightarrow> int \<Rightarrow> 'a list" where
  "slice xs i j =
     (let lo = slice_index i (length xs); hi = slice_index j (length xs)
      in take (hi - lo) (drop lo xs))"

definition slice_from :: "'a list \<Rightarrow> int \<Rightarrow> 'a list" where
  "slice_from xs i = drop (slice_index i (length xs)) xs"

text \<open>
  \<open>range(start, stop, step)\<close> for a non-zero step. Python raises \<open>ValueError\<close> when the
  step is zero; the caller below checks that before the range is built.
\<close>

function py_range :: "int \<Rightarrow> int \<Rightarrow> int \<Rightarrow> int list" where
  "py_range start stop step =
     (if 0 < step \<and> start < stop then start # py_range (start + step) stop step
      else if step < 0 \<and> stop < start then start # py_range (start + step) stop step
      else [])"
  by pat_completeness auto
termination
  by (relation "measure (\<lambda>(start, stop, step).
        if 0 < step then nat (stop - start) else nat (start - stop))") auto

declare py_range.simps [simp del]

datatype py_error = ValueError

section \<open>The data model\<close>

text \<open>
  An annotation is the dictionary built by the add operation of \<open>main\<close>, with the keys
  \<open>start_pos\<close>, \<open>end_pos\<close>, \<open>label\<close> and \<open>text_fragment\<close> in that order.
\<close>

record annotation =
  start_pos :: int
  end_pos :: int
  label :: pystr
  text_fragment :: pystr

text \<open>
  The renderer returns a list whose entries are either a bare string (unannotated text)
  or a triple of the annotated text, its label and the colour code.
\<close>

datatype fragment = Plain pystr | Highlight pystr pystr pystr

fun fragment_text :: "fragment \<Rightarrow> pystr" where
  "fragment_text (Plain s) = s"
| "fragment_text (Highlight s l c) = s"

fun is_highlight :: "fragment \<Rightarrow> bool" where
  "is_highlight (Plain s) = False"
| "is_highlight (Highlight s l c) = True"

section \<open>get_annotated_text\<close>

text \<open>
  One iteration of the loop over the sorted annotations. The state is the pair of
  \<open>annotated_text_list\<close> and \<open>last_end\<close>.
\<close>

definition render_step :: "pystr \<Rightarrow> fragment list \<times> int \<Rightarrow> annotation \<Rightarrow> fragment list \<times> int" where
  "render_step text st annotation =
     (let annotated_text_list = fst st; last_end = snd st;
          annotated_text_list =
            (if last_end < start_pos annotation
             then annotated_text_list @ [Plain (slice text last_end (start_pos annotation))]
             else annotated_text_list);
          annotated_text_list = annotated_text_list @
            [Highlight (slice text (start_pos annotation) (end_pos annotation))
               (label annotation) (pystr_of ''#8ef'')]
      in (annotated_text_list, end_pos annotation))"

text \<open>\<open>sorted(annotations, key=...)\<close> is a stable sort, as \<open>sort_key\<close> is.\<close>

definition get_annotated_text :: "pystr \<Rightarrow> annotation list \<Rightarrow> fragment list" where
  "get_annotated_text text annotations =
     (let st = foldl (render_step text) ([], 0) (sort_key start_pos annotations);
          annotated_text_list = fst st; last_end = snd st
      in if last_end < int (length text)
         then annotated_text_list @ [Plain (slice_from text last_end)]
         else annotated_text_list)"

section \<open>paginate_text\<close>

definition paginate_text :: "pystr \<Rightarrow> int \<Rightarrow> py_error + pystr list" where
  "paginate_text text indices_per_page =
     (if indices_per_page = 0 then Inl ValueError
      else Inr (map (\<lambda>i. slice text i (i + indices_per_page))
                  (py_range 0 (int (length text)) indices_per_page)))"

section \<open>The add operation of main\<close>

text \<open>
  The body of \<open>if st.button("Add Annotation")\<close>: the session's annotation list and the
  message shown to the user.
\<close>

datatype message = Success pystr | Error pystr

definition add_annotation ::
  "pystr \<Rightarrow> annotation list \<Rightarrow> int \<Rightarrow> int \<Rightarrow> pystr \<Rightarrow> annotation list \<times> message" where
  "add_annotation text annotations start end lbl =
     (if 0 \<le> start \<and> start < end \<and> end \<le> int (length text)
      then (annotations @
              [\<lparr>start_pos = start, end_pos = end, label = lbl,
                text_fragment = slice text start end\<rparr>],
            Success (pystr_of ''Annotation Added!''))
      else (annotations, Error (pystr_of ''Invalid annotation positions.'')))"

section \<open>Well-formed annotation lists\<close>

text \<open>
  The invariant of an annotation, \<open>0 \<le> start < end \<le> N\<close>, and what it means for two
  half-open spans not to overlap.
\<close>

definition disjoint_spans :: "annotation \<Rightarrow> annotation \<Rightarrow> bool" where
  "disjoint_spans a b \<longleftrightarrow> end_pos a \<le> start_pos b \<or> end_pos b \<le> start_pos a"

definition valid_span :: "pystr \<Rightarrow> annotation \<Rightarrow> bool" where
  "valid_span text a \<longleftrightarrow> 0 \<le> start_pos a \<and> start_pos a < end_pos a \<and> end_pos a \<le> int (length text)"

section \<open>json.dumps\<close>

text \<open>
  \<open>save_annotations\<close> calls \<open>json.dumps(annotated_data, indent=4)\<close> of Python's standard
  library. The model follows \<open>json/encoder.py\<close> of CPython 3.11 for the values this
  program can pass to it: dictionaries with string keys (in insertion order), lists,
  strings, integers, booleans and \<open>None\<close>. Floats are not modelled. The limits of the
  interpreter (recursion depth, the 4300-digit limit on converting integers to text,
  memory) are outside the model.
\<close>

text \<open>
  Characters are written as their code points: 34 is the double quote, 92 the backslash,
  47 the slash, 44 the comma, 58 the colon, 32 the space, 9, 10 and 13 the tab, the
  newline and the carriage return, 8 and 12 the backspace and the form feed, 91 and 93 the
  square brackets, 123 and 125 the braces, 45, 43 and 46 the minus sign, the plus sign and
  the full stop, 48 to 57 the digits, 97 to 102 the letters \<open>a\<close> to \<open>f\<close> and 65 to 70
  \<open>A\<close> to \<open>F\<close>; 98, 102, 110, 114, 116 and 117 are the letters \<open>b\<close>, \<open>f\<close>, \<open>n\<close>,
  \<open>r\<close>, \<open>t\<close> and \<open>u\<close> of the escapes, and 101 and 69 the \<open>e\<close> and \<open>E\<close> of an
  exponent.
\<close>

unbundle bit_operations_syntax

datatype json = JNull | JBool bool | JInt int | JStr pystr | JArr "json list" | JObj "(pystr \<times> json) list"

text \<open>
  \<open>encode_basestring_ascii\<close>, the string encoder used when \<open>ensure_ascii\<close> is true (the
  default). The backslash, the double quote and the control characters \<open>\b \f \n \r \t\<close>
  get their two-character escapes; the other characters from space to \<open>~\<close> stand for
  themselves; every other code point below \<open>0x10000\<close> becomes \<open>\uXXXX\<close> with four
  lower-case hexadecimal digits, and a code point from \<open>0x10000\<close> on becomes the two
  escapes of its UTF-16 surrogate pair. \<open>hex4\<close> is \<open>'{0:04x}'.format(n)\<close> for
  \<open>n < 0x10000\<close>, which is how both of its uses call it.
\<close>

definition hex_digit :: "nat \<Rightarrow> codepoint" where
  "hex_digit d = (if d < 10 then 48 + d else 87 + d)"

definition hex4 :: "nat \<Rightarrow> pystr" where
  "hex4 n = [hex_digit (n div 4096 mod 16), hex_digit (n div 256 mod 16),
             hex_digit (n div 16 mod 16), hex_digit (n mod 16)]"

definition escape_char :: "codepoint \<Rightarrow> pystr" where
  "escape_char c =
     (if c = 92 then [92, 92]
      else if c = 34 then [92, 34]
      else if c = 8 then [92, 98]
      else if c = 12 then [92, 102]
      else if c = 10 then [92, 110]
      else if c = 13 then [92, 114]
      else if c = 9 then [92, 116]
      else if 32 \<le> c \<and> c \<le> 126 then [c]
      else if c < 0x10000 then [92, 117] @ hex4 c
      else (let n = c - 0x10000;
                s1 = 0xd800 OR (drop_bit 10 n AND 0x3ff);
                s2 = 0xdc00 OR (n AND 0x3ff)
            in [92, 117] @ hex4 s1 @ [92, 117] @ hex4 s2))"

definition encode_basestring_ascii :: "pystr \<Rightarrow> pystr" where
  "encode_basestring_ascii s = [34] @ concat (map escape_char s) @ [34]"

text \<open>\<open>int.__repr__\<close>: the decimal digits, most significant first, after a minus sign for a
  negative number.\<close>

fun decimal :: "nat \<Rightarrow> pystr" where
  "decimal n = (if n < 10 then [48 + n] else decimal (n div 10) @ [48 + n mod 10])"

declare decimal.simps [simp del]

definition intstr :: "int \<Rightarrow> pystr" where
  "intstr i = (if i < 0 then 45 # decimal (nat (- i)) else decimal (nat i))"

text \<open>
  \<open>_make_iterencode\<close> with an integer \<open>indent\<close>: the item separator is a comma, the key
  separator a colon and a space; a non-empty list or dictionary puts every item on a line
  of its own, indented by \<open>indent\<close> spaces per nesting level, and the closing bracket on a
  line indented as the opening one; an empty list is \<open>[]\<close> and an empty dictionary
  \<open>{}\<close>. \<open>iterencode_list\<close> and \<open>iterencode_dict\<close> give the items between the brackets.
\<close>

definition newline_indent :: "nat \<Rightarrow> nat \<Rightarrow> pystr" where
  "newline_indent indent lvl = 10 # concat (replicate lvl (replicate indent 32))"

fun iterencode :: "nat \<Rightarrow> nat \<Rightarrow> json \<Rightarrow> pystr"
  and iterencode_list :: "nat \<Rightarrow> nat \<Rightarrow> json list \<Rightarrow> pystr"
  and iterencode_dict :: "nat \<Rightarrow> nat \<Rightarrow> (pystr \<times> json) list \<Rightarrow> pystr" where
  "iterencode indent lvl JNull = pystr_of ''null''"
| "iterencode indent lvl (JBool b) = (if b then pystr_of ''true'' else pystr_of ''false'')"
| "iterencode indent lvl (JInt i) = intstr i"
| "iterencode indent lvl (JStr s) = encode_basestring_ascii s"
| "iterencode indent lvl (JArr lst) =
     (if lst = [] then pystr_of ''[]''
      else [91] @ newline_indent indent (lvl + 1) @ iterencode_list indent (lvl + 1) lst
           @ newline_indent indent lvl @ [93])"
| "iterencode indent lvl (JObj dct) =
     (if dct = [] then pystr_of ''{}''
      else [123] @ newline_indent indent (lvl + 1) @ iterencode_dict indent (lvl + 1) dct
           @ newline_indent indent lvl @ [125])"
| "iterencode_list indent lvl [] = []"
| "iterencode_list indent lvl (v # vs) =
     iterencode indent lvl v @ (if vs = [] then [] else [44] @ newline_indent indent lvl @ iterencode_list indent lvl vs)"
| "iterencode_dict indent lvl [] = []"
| "iterencode_dict indent lvl ((k, v) # kvs) =
     encode_basestring_ascii k @ [58, 32] @ iterencode indent lvl v
     @ (if kvs = [] then [] else [44] @ newline_indent indent lvl @ iterencode_dict indent lvl kvs)"

definition json_dumps :: "json \<Rightarrow> nat \<Rightarrow> pystr" where
  "json_dumps obj indent = iterencode indent 0 obj"

section \<open>json.loads\<close>

text \<open>
  The decoder of \<open>json/decoder.py\<close> and \<open>json/scanner.py\<close>, as a function from the input
  text to the parsed value or an error. Every way in which Python raises
  \<open>JSONDecodeError\<close> is the value \<open>Inl JSONDecodeError\<close>. A number with a fraction or an
  exponent, and the constants \<open>NaN\<close>, \<open>Infinity\<close> and \<open>-Infinity\<close>, would be parsed to a
  float, which is not modelled: they give \<open>Inl FloatNotModelled\<close>.
\<close>

datatype json_error = JSONDecodeError | FloatNotModelled | DepthExceeded

text \<open>
  \<open>scanstring\<close> reads a string literal from the character after its opening quote and
  returns the decoded string and the input after the closing quote. A \<open>\uXXXX\<close> escape
  of a high surrogate that is followed by the escape of a low surrogate is decoded to the
  one code point of the pair; hexadecimal digits are accepted in both cases.
\<close>

definition hexval :: "codepoint \<Rightarrow> nat option" where
  "hexval c =
     (if 48 \<le> c \<and> c \<le> 57 then Some (c - 48)
      else if 97 \<le> c \<and> c \<le> 102 then Some (c - 87)
      else if 65 \<le> c \<and> c \<le> 70 then Some (c - 55)
      else None)"

definition decode_uXXXX :: "pystr \<Rightarrow> nat option" where
  "decode_uXXXX esc =
     (case map hexval esc of
        [Some a, Some b, Some c, Some d] \<Rightarrow> Some (((a * 16 + b) * 16 + c) * 16 + d)
      | _ \<Rightarrow> None)"

definition backslash :: "codepoint \<Rightarrow> codepoint option" where
  "backslash esc =
     (if esc = 34 then Some 34
      else if esc = 92 then Some 92
      else if esc = 47 then Some 47
      else if esc = 98 then Some 8
      else if esc = 102 then Some 12
      else if esc = 110 then Some 10
      else if esc = 114 then Some 13
      else if esc = 116 then Some 9
      else None)"

definition append_char ::
  "codepoint \<Rightarrow> json_error + pystr \<times> pystr \<Rightarrow> json_error + pystr \<times> pystr" where
  "append_char c r = (case r of Inl e \<Rightarrow> Inl e | Inr (str, rest) \<Rightarrow> Inr (c # str, rest))"

fun scanstring :: "pystr \<Rightarrow> json_error + pystr \<times> pystr" where
  "scanstring [] = Inl JSONDecodeError"
| "scanstring (c # s) =
     (if c = 34 then Inr ([], s)
      else if c \<noteq> 92 then (if c < 32 then Inl JSONDecodeError else append_char c (scanstring s))
      else (case s of
              [] \<Rightarrow> Inl JSONDecodeError
            | esc # s1 \<Rightarrow>
                if esc \<noteq> 117 then
                  (case backslash esc of
                     None \<Rightarrow> Inl JSONDecodeError
                   | Some char \<Rightarrow> append_char char (scanstring s1))
                else
                  (case decode_uXXXX (take 4 s1) of
                     None \<Rightarrow> Inl JSONDecodeError
                   | Some uni \<Rightarrow>
                       if 0xd800 \<le> uni \<and> uni \<le> 0xdbff \<and> take 2 (drop 4 s1) = [92, 117] then
                         (case decode_uXXXX (take 4 (drop 6 s1)) of
                            None \<Rightarrow> Inl JSONDecodeError
                          | Some uni2 \<Rightarrow>
                              if 0xdc00 \<le> uni2 \<and> uni2 \<le> 0xdfff then
                                append_char
                                  (0x10000 + (push_bit 10 (uni - 0xd800) OR (uni2 - 0xdc00)))
                                  (scanstring (drop 10 s1))
                              else append_char uni (scanstring (drop 4 s1)))
                       else append_char uni (scanstring (drop 4 s1)))))"

definition is_ws :: "codepoint \<Rightarrow> bool" where
  "is_ws c \<longleftrightarrow> c = 32 \<or> c = 9 \<or> c = 10 \<or> c = 13"

definition skip_ws :: "pystr \<Rightarrow> pystr" where
  "skip_ws s = dropWhile is_ws s"

text \<open>
  The number pattern \<open>(-?(?:0|[1-9]\d*))(\.\d+)?([eE][-+]?\d+)?\<close>: an optional minus
  sign, then either a single zero or a non-zero digit followed by digits. When a fraction
  or an exponent follows, Python builds a float.
\<close>

definition is_digit :: "codepoint \<Rightarrow> bool" where
  "is_digit c \<longleftrightarrow> 48 \<le> c \<and> c \<le> 57"

definition digits_value :: "pystr \<Rightarrow> nat" where
  "digits_value ds = foldl (\<lambda>a d. 10 * a + (d - 48)) 0 ds"

definition has_frac :: "pystr \<Rightarrow> bool" where
  "has_frac s = (case s of c # d # _ \<Rightarrow> c = 46 \<and> is_digit d | _ \<Rightarrow> False)"

definition has_exp :: "pystr \<Rightarrow> bool" where
  "has_exp s =
     (case s of
        c # d # r \<Rightarrow>
          (c = 101 \<or> c = 69) \<and>
          (is_digit d \<or> ((d = 45 \<or> d = 43) \<and> (case r of e # _ \<Rightarrow> is_digit e | [] \<Rightarrow> False)))
      | _ \<Rightarrow> False)"

definition match_number :: "pystr \<Rightarrow> json_error + json \<times> pystr" where
  "match_number s =
     (let negative = (s \<noteq> [] \<and> hd s = 45);
          s1 = (if negative then tl s else s)
      in case s1 of
           [] \<Rightarrow> Inl JSONDecodeError
         | d # r \<Rightarrow>
             if \<not> is_digit d then Inl JSONDecodeError
             else
               (let integer = (if d = 48 then [d] else d # takeWhile is_digit r);
                    rest = (if d = 48 then r else dropWhile is_digit r)
                in if has_frac rest \<or> has_exp rest then Inl FloatNotModelled
                   else Inr (JInt (if negative then - int (digits_value integer)
                                   else int (digits_value integer)), rest)))"

text \<open>
  \<open>dict(pairs)\<close>: a key that occurs again keeps its first position and takes the later
  value.
\<close>

definition dict :: "(pystr \<times> json) list \<Rightarrow> (pystr \<times> json) list" where
  "dict pairs = foldl (\<lambda>d kv. AList.update (fst kv) (snd kv) d) [] pairs"

text \<open>
  \<open>scan_once\<close>, \<open>JSONArray\<close> and \<open>JSONObject\<close> call each other recursively in Python. The
  first argument bounds the number of nested and successive calls; \<open>json_loads\<close> supplies
  one more than twice the length of the input, which is never exhausted (lemma
  \<open>json_loads_total\<close> below). \<open>JSONArray\<close> is entered at the first value of a non-empty
  array and \<open>JSONObject\<close> after the opening quote of a key, each with the items read so
  far. White space is skipped where Python skips it.
\<close>

fun scan_once :: "nat \<Rightarrow> pystr \<Rightarrow> json_error + json \<times> pystr"
  and JSONArray :: "nat \<Rightarrow> json list \<Rightarrow> pystr \<Rightarrow> json_error + json \<times> pystr"
  and JSONObject :: "nat \<Rightarrow> (pystr \<times> json) list \<Rightarrow> pystr \<Rightarrow> json_error + json \<times> pystr" where
  "scan_once 0 s = Inl DepthExceeded"
| "scan_once (Suc n) [] = Inl JSONDecodeError"
| "scan_once (Suc n) (nextchar # s) =
     (if nextchar = 34 then
        (case scanstring s of Inl e \<Rightarrow> Inl e | Inr (str, rest) \<Rightarrow> Inr (JStr str, rest))
      else if nextchar = 123 then
        (case skip_ws s of
           [] \<Rightarrow> Inl JSONDecodeError
         | c # s1 \<Rightarrow>
             if c = 125 then Inr (JObj [], s1)
             else if c = 34 then JSONObject n [] s1
             else Inl JSONDecodeError)
      else if nextchar = 91 then
        (case skip_ws s of
           [] \<Rightarrow> Inl JSONDecodeError
         | c # s1 \<Rightarrow> if c = 93 then Inr (JArr [], s1) else JSONArray n [] (c # s1))
      else if take 4 (nextchar # s) = pystr_of ''null'' then Inr (JNull, drop 3 s)
      else if take 4 (nextchar # s) = pystr_of ''true'' then Inr (JBool True, drop 3 s)
      else if take 5 (nextchar # s) = pystr_of ''false'' then Inr (JBool False, drop 4 s)
      else
        (case match_number (nextchar # s) of
           Inr r \<Rightarrow> Inr r
         | Inl FloatNotModelled \<Rightarrow> Inl FloatNotModelled
         | Inl e \<Rightarrow>
             if take 3 (nextchar # s) = pystr_of ''NaN''
                \<or> take 8 (nextchar # s) = pystr_of ''Infinity''
                \<or> take 9 (nextchar # s) = pystr_of ''-Infinity''
             then Inl FloatNotModelled else Inl JSONDecodeError))"
| "JSONArray 0 values s = Inl DepthExceeded"
| "JSONArray (Suc n) values s =
     (case scan_once n s of
        Inl e \<Rightarrow> Inl e
      | Inr (v, s1) \<Rightarrow>
          (case skip_ws s1 of
             [] \<Rightarrow> Inl JSONDecodeError
           | c # s2 \<Rightarrow>
               if c = 93 then Inr (JArr (values @ [v]), s2)
               else if c \<noteq> 44 then Inl JSONDecodeError
               else JSONArray n (values @ [v]) (skip_ws s2)))"
| "JSONObject 0 pairs s = Inl DepthExceeded"
| "JSONObject (Suc n) pairs s =
     (case scanstring s of
        Inl e \<Rightarrow> Inl e
      | Inr (key, s1) \<Rightarrow>
          (case skip_ws s1 of
             [] \<Rightarrow> Inl JSONDecodeError
           | c # s2 \<Rightarrow>
               if c \<noteq> 58 then Inl JSONDecodeError
               else
                 (case scan_once n (skip_ws s2) of
                    Inl e \<Rightarrow> Inl e
                  | Inr (v, s3) \<Rightarrow>
                      (case skip_ws s3 of
                         [] \<Rightarrow> Inl JSONDecodeError
                       | c # s4 \<Rightarrow>
                           if c = 125 then Inr (JObj (dict (pairs @ [(key, v)])), s4)
                           else if c \<noteq> 44 then Inl JSONDecodeError
                           else
                             (case skip_ws s4 of
                                [] \<Rightarrow> Inl JSONDecodeError
                              | c # s5 \<Rightarrow>
                                  if c \<noteq> 34 then Inl JSONDecodeError
                                  else JSONObject n (pairs @ [(key, v)]) s5)))))"

definition json_loads :: "pystr \<Rightarrow> json_error + json" where
  "json_loads s =
     (case scan_once (Suc (2 * length s)) (skip_ws s) of
        Inl e \<Rightarrow> Inl e
      | Inr (obj, rest) \<Rightarrow> if skip_ws rest = [] then Inr obj else Inl JSONDecodeError)"

section \<open>save_annotations\<close>

text \<open>
  An annotation dictionary as \<open>json.dumps\<close> sees it, with the keys in the order in which
  \<open>main\<close> inserts them.
\<close>

definition save_annotations_dict :: "annotation \<Rightarrow> json" where
  "save_annotations_dict a =
     JObj [(pystr_of ''start_pos'', JInt (start_pos a)),
           (pystr_of ''end_pos'', JInt (end_pos a)),
           (pystr_of ''label'', JStr (label a)),
           (pystr_of ''text_fragment'', JStr (text_fragment a))]"

definition save_annotations :: "pystr \<Rightarrow> annotation list \<Rightarrow> pystr" where
  "save_annotations text annotations =
     (let annotated_data =
            JObj [(pystr_of ''text'', JStr text),
                  (pystr_of ''annotations'', JArr (map save_annotations_dict annotations))];
          json_data = json_dumps annotated_data 4
      in json_data)"

section \<open>Strings and the round trip\<close>


text \<open>
  A Unicode scalar value is a code point that is not a surrogate. Decoding UTF-8, as
  \<open>main\<close> does with the uploaded file, yields only scalar values.
\<close>

definition scalar_value :: "codepoint \<Rightarrow> bool" where
  "scalar_value c \<longleftrightarrow> c < 0x110000 \<and> \<not> (0xd800 \<le> c \<and> c \<le> 0xdfff)"

definition wf_str :: "pystr \<Rightarrow> bool" where
  "wf_str s \<longleftrightarrow> list_all scalar_value s"

text \<open>
  A Python string can hold every code point below \<open>0x110000\<close>, surrogates included.
  \<open>join_surrogates\<close> is what the decoder makes of a string that the encoder wrote: a high
  surrogate followed by a low surrogate has become the code point of the pair.
  \<open>norm_json\<close> applies it to every string and key of a value.
\<close>

definition py_char :: "codepoint \<Rightarrow> bool" where
  "py_char c \<longleftrightarrow> c < 0x110000"

definition py_str :: "pystr \<Rightarrow> bool" where
  "py_str s \<longleftrightarrow> list_all py_char s"

fun join_surrogates :: "pystr \<Rightarrow> pystr" where
  "join_surrogates (h # l # s) =
     (if 0xd800 \<le> h \<and> h \<le> 0xdbff \<and> 0xdc00 \<le> l \<and> l \<le> 0xdfff
      then (0x10000 + (push_bit 10 (h - 0xd800) OR (l - 0xdc00))) # join_surrogates s
      else h # join_surrogates (l # s))"
| "join_surrogates [c] = [c]"
| "join_surrogates [] = []"

text \<open>
  The Python strings in which no high surrogate is directly followed by a low surrogate:
  the decoder gives exactly these back as they were written. Every string of scalar
  values is one of them, and so is a string with surrogates that do not form a pair.
\<close>

definition unpaired :: "pystr \<Rightarrow> bool" where
  "unpaired s \<longleftrightarrow> py_str s \<and> join_surrogates s = s"


fun norm_json :: "json \<Rightarrow> json"
  and norm_json_list :: "json list \<Rightarrow> json list"
  and norm_json_dict :: "(pystr \<times> json) list \<Rightarrow> (pystr \<times> json) list" where
  "norm_json JNull = JNull"
| "norm_json (JBool b) = JBool b"
| "norm_json (JInt i) = JInt i"
| "norm_json (JStr s) = JStr (join_surrogates s)"
| "norm_json (JArr lst) = JArr (norm_json_list lst)"
| "norm_json (JObj dct) = JObj (norm_json_dict dct)"
| "norm_json_list [] = []"
| "norm_json_list (v # vs) = norm_json v # norm_json_list vs"
| "norm_json_dict [] = []"
| "norm_json_dict ((k, v) # kvs) = (join_surrogates k, norm_json v) # norm_json_dict kvs"

text \<open>
  The values that \<open>json.dumps\<close> can be given: strings of Python characters, and
  dictionaries whose keys stay different when they are read back.
\<close>

fun py_json :: "json \<Rightarrow> bool"
  and py_json_list :: "json list \<Rightarrow> bool"
  and py_json_dict :: "(pystr \<times> json) list \<Rightarrow> bool" where
  "py_json JNull = True"
| "py_json (JBool b) = True"
| "py_json (JInt i) = True"
| "py_json (JStr s) = py_str s"
| "py_json (JArr lst) = py_json_list lst"
| "py_json (JObj dct) = (distinct (map (\<lambda>kv. join_surrogates (fst kv)) dct) \<and> py_json_dict dct)"
| "py_json_list [] = True"
| "py_json_list (v # vs) = (py_json v \<and> py_json_list vs)"
| "py_json_dict [] = True"
| "py_json_dict ((k, v) # kvs) = (py_str k \<and> py_json v \<and> py_json_dict kvs)"

text \<open>
  The input after the escape of a high surrogate does not go on with the escape of a low
  surrogate.
\<close>

definition next_not_low :: "pystr \<Rightarrow> bool" where
  "next_not_low t \<longleftrightarrow>
     take 2 t \<noteq> [92, 117]
     \<or> (\<exists>u. decode_uXXXX (take 4 (drop 2 t)) = Some u \<and> \<not> (0xdc00 \<le> u \<and> u \<le> 0xdfff))"

text \<open>What may follow a number in the input for the number to end there.\<close>

definition number_char :: "codepoint \<Rightarrow> bool" where
  "number_char c \<longleftrightarrow> is_digit c \<or> c = 46 \<or> c = 101 \<or> c = 69"

definition delimited :: "pystr \<Rightarrow> bool" where
  "delimited rest \<longleftrightarrow> rest = [] \<or> \<not> number_char (hd rest)"

section \<open>Slices and ranges\<close>

lemma slice_window:
  assumes "0 \<le> i" "0 < p"
  shows "slice xs i (i + p) = take (nat p) (drop (nat i) xs)"
proof (cases "i + p \<le> int (length xs)")
  case True
  with assms have "slice_index i (length xs) = nat i" "slice_index (i + p) (length xs) = nat (i + p)"
    by (simp_all add: slice_index_def)
  moreover from assms have "nat (i + p) - nat i = nat p" by simp
  ultimately show ?thesis by (simp add: slice_def)
next
  case False
  show ?thesis
  proof (cases "i \<le> int (length xs)")
    case True
    with False assms have "slice_index i (length xs) = nat i" "slice_index (i + p) (length xs) = length xs"
      by (simp_all add: slice_index_def)
    moreover from False assms have "length xs - nat i \<le> nat p" by linarith
    ultimately show ?thesis by (simp add: slice_def)
  next
    case F2: False
    with assms have "slice_index i (length xs) = length xs" "length xs \<le> nat i"
      by (simp_all add: slice_index_def)
    then show ?thesis by (simp add: slice_def)
  qed
qed

lemma py_range_pos:
  "0 < p \<Longrightarrow> py_range i n p = (if i < n then i # py_range (i + p) n p else [])"
  by (subst py_range.simps) simp

lemma concat_windows:
  "0 < p \<Longrightarrow> 0 \<le> i \<Longrightarrow>
   concat (map (\<lambda>i. slice xs i (i + p)) (py_range i (int (length xs)) p)) = drop (nat i) xs"
proof (induction i "int (length xs)" p rule: py_range.induct)
  case (1 start step)
  show ?case
  proof (cases "start < int (length xs)")
    case True
    from 1 True have IH:
      "concat (map (\<lambda>i. slice xs i (i + step)) (py_range (start + step) (int (length xs)) step)) =
       drop (nat (start + step)) xs" by simp
    have "nat (start + step) = nat step + nat start" using 1 by simp
    then have "take (nat step) (drop (nat start) xs) @ drop (nat (start + step)) xs = drop (nat start) xs"
      by (metis append_take_drop_id drop_drop)
    with 1 True IH show ?thesis
      by (subst py_range_pos) (simp_all add: slice_window)
  next
    case False
    with 1 show ?thesis by (subst py_range_pos) simp_all
  qed
qed

lemma length_py_range_pos:
  "0 < p \<Longrightarrow> int (length (py_range i n p)) = (if i < n then (n - i + p - 1) div p else 0)"
proof (induction i n p rule: py_range.induct)
  case (1 start stop step)
  show ?case
  proof (cases "start < stop")
    case True
    have "(stop - start + step - 1) div step = (stop - start - 1) div step + 1"
      using 1(3) by (metis add.commute add_diff_eq diff_add_eq div_add_self1 less_irrefl)
    moreover have "stop \<le> start + step \<Longrightarrow> (stop - start - 1) div step = 0"
      using True by (simp add: div_pos_pos_trivial)
    ultimately show ?thesis using 1 True
      by (subst py_range_pos) (auto simp: algebra_simps)
  next
    case False
    with 1 show ?thesis by (subst py_range_pos) simp_all
  qed
qed

lemma nth_py_range_pos:
  "0 < p \<Longrightarrow> k < length (py_range i n p) \<Longrightarrow> py_range i n p ! k = i + int k * p"
proof (induction i n p arbitrary: k rule: py_range.induct)
  case (1 start stop step)
  from 1(4) 1(3) have lt: "start < stop"
    by (subst (asm) py_range_pos) (auto split: if_splits)
  show ?case
  proof (cases k)
    case 0
    with lt 1(3) show ?thesis by (subst py_range_pos) simp_all
  next
    case (Suc m)
    from 1(4) 1(3) lt Suc have "m < length (py_range (start + step) stop step)"
      by (subst (asm) py_range_pos) simp_all
    with 1(1) lt 1(3) have "py_range (start + step) stop step ! m = start + step + int m * step"
      by simp
    with lt 1(3) Suc show ?thesis
      by (subst py_range_pos) (simp_all add: algebra_simps)
  qed
qed

section \<open>Pagination\<close>

lemma div_round_up:
  assumes "0 < (p::int)"
  shows "(n + p - 1) div p = (if n mod p = 0 then n div p else n div p + 1)"
proof -
  define q r where "q = n div p" and "r = n mod p"
  have n: "n = r + q * p" by (simp add: q_def r_def)
  have r: "0 \<le> r" "r < p" using assms by (simp_all add: r_def)
  have "(n + p - 1) div p = ((r + p - 1) + q * p) div p" by (simp add: n algebra_simps)
  also have "\<dots> = q + (r + p - 1) div p" using assms by simp
  finally have e: "(n + p - 1) div p = q + (r + p - 1) div p" .
  show ?thesis
  proof (cases "r = 0")
    case True
    then have "(r + p - 1) div p = 0" using assms by (simp add: div_pos_pos_trivial)
    with e True show ?thesis by (simp add: q_def r_def)
  next
    case False
    have "(r + p - 1) div p = ((r - 1) + 1 * p) div p" by (simp add: algebra_simps)
    also have "\<dots> = 1 + (r - 1) div p" using assms by (subst div_mult_self1) simp_all
    also have "(r - 1) div p = 0" using r False by (simp add: div_pos_pos_trivial)
    finally show ?thesis using e False by (simp add: q_def r_def)
  qed
qed

lemma ceil_div: 
  assumes "0 < (p::int)"
  shows "\<lceil>real_of_int n / real_of_int p\<rceil> = (n + p - 1) div p"
proof -
  have "\<lceil>real_of_int n / real_of_int p\<rceil> = - (- n div p)" by (rule ceiling_divide_eq_div)
  also have "\<dots> = (if n mod p = 0 then n div p else n div p + 1)"
    using assms by (simp add: zdiv_zminus1_eq_if)
  also have "\<dots> = (n + p - 1) div p" using assms by (simp add: div_round_up)
  finally show ?thesis .
qed

lemma paginate_pos:
  "0 < p \<Longrightarrow> paginate_text text p =
     Inr (map (\<lambda>i. slice text i (i + p)) (py_range 0 (int (length text)) p))"
  by (simp add: paginate_text_def)

lemma length_pages:
  assumes "0 < p"
  shows "int (length (py_range 0 (int (length text)) p)) = \<lceil>real (length text) / real_of_int p\<rceil>"
proof -
  have "\<lceil>real (length text) / real_of_int p\<rceil> = \<lceil>real_of_int (int (length text)) / real_of_int p\<rceil>"
    by simp
  also have "\<dots> = (int (length text) + p - 1) div p" using assms by (rule ceil_div)
  finally have c: "\<lceil>real (length text) / real_of_int p\<rceil> = (int (length text) + p - 1) div p" .
  show ?thesis
  proof (cases "text = []")
    case True
    with assms c show ?thesis by (simp add: length_py_range_pos div_pos_pos_trivial)
  next
    case False
    with assms c show ?thesis by (simp add: length_py_range_pos)
  qed
qed

lemma nth_pages:
  assumes "0 < p" "k < length (py_range 0 (int (length text)) p)"
  shows "map (\<lambda>i. slice text i (i + p)) (py_range 0 (int (length text)) p) ! k
         = take (nat p) (drop (k * nat p) text)"
proof -
  have "py_range 0 (int (length text)) p ! k = int k * p"
    using assms by (simp add: nth_py_range_pos)
  moreover have "nat (int k * p) = k * nat p" using assms by (simp add: nat_mult_distrib)
  ultimately show ?thesis using assms by (simp add: slice_window)
qed

lemma py_range_pos_bound:
  "0 < p \<Longrightarrow> x \<in> set (py_range i n p) \<Longrightarrow> x < n"
proof (induction i n p rule: py_range.induct)
  case (1 start stop step)
  from 1(4) 1(3) have lt: "start < stop"
    by (subst (asm) py_range_pos) (auto split: if_splits)
  from 1(4) 1(3) lt have "x = start \<or> x \<in> set (py_range (start + step) stop step)"
    by (subst (asm) py_range_pos) auto
  with 1(1) 1(3) lt show ?case by auto
qed

lemma length_full_page:
  assumes "0 < p" "Suc k < length (py_range 0 (int (length text)) p)"
  shows "length (take (nat p) (drop (k * nat p) text)) = nat p"
proof -
  let ?r = "py_range 0 (int (length text)) p"
  have "?r ! Suc k = int (Suc k) * p" using assms by (simp add: nth_py_range_pos)
  moreover have "?r ! Suc k \<in> set ?r" using assms(2) by simp
  ultimately have "int (Suc k) * p < int (length text)"
    using py_range_pos_bound[OF assms(1)] by metis
  then have "int (Suc k * nat p) < int (length text)" using assms(1) by (simp add: algebra_simps)
  then have "Suc k * nat p < length text" by linarith
  then show ?thesis by simp
qed

lemma length_last_page:
  assumes "0 < p" "py_range 0 (int (length text)) p \<noteq> []"
  shows "length (last (map (\<lambda>i. slice text i (i + p)) (py_range 0 (int (length text)) p))) =
         (if int (length text) mod p = 0 then nat p else nat (int (length text) mod p))"
proof -
  let ?r = "py_range 0 (int (length text)) p"
  let ?n = "int (length text)"
  define m where "m = length ?r - 1"
  have m: "m < length ?r" "Suc m = length ?r" using assms(2) by (simp_all add: m_def)
  have pos: "0 < ?n" using py_range_pos[OF assms(1), of 0 ?n] assms(2)
    by (auto split: if_splits)
  have "last (map (\<lambda>i. slice text i (i + p)) ?r) = map (\<lambda>i. slice text i (i + p)) ?r ! m"
    using assms(2) by (simp add: last_conv_nth m_def)
  also have "\<dots> = take (nat p) (drop (m * nat p) text)" using assms(1) m(1) by (rule nth_pages)
  finally have l: "length (last (map (\<lambda>i. slice text i (i + p)) ?r)) = min (length text - m * nat p) (nat p)"
    by simp
  have "int (Suc m) = (?n + p - 1) div p"
    using assms(1) pos m(2) length_py_range_pos[of p 0 ?n] by simp
  then have sm: "int (Suc m) = (if ?n mod p = 0 then ?n div p else ?n div p + 1)"
    using assms(1) by (simp add: div_round_up)
  have mp: "int (m * nat p) = int m * p" using assms(1) by simp
  show ?thesis
  proof (cases "?n mod p = 0")
    case True
    with sm have "?n div p = int m + 1" by simp
    then have "?n div p * p = int m * p + p" by (simp add: algebra_simps)
    moreover have "?n div p * p = ?n" using True by (simp add: mod_0_imp_dvd)
    ultimately have "int m * p = ?n - p" by simp
    with mp have "int (length text - m * nat p) = p" using assms(1) pos by linarith
    then have "length text - m * nat p = nat p" by linarith
    with l True show ?thesis by simp
  next
    case False
    with sm have "int m = ?n div p" by simp
    then have "int m * p = ?n - ?n mod p" by (simp add: algebra_simps minus_mod_eq_mult_div)
    moreover have "0 \<le> ?n mod p" "?n mod p < p" "?n mod p \<le> ?n" using assms(1) pos by (simp_all add: zmod_le_nonneg_dividend)
    ultimately have "int (length text - m * nat p) = ?n mod p" using mp by linarith
    then have "length text - m * nat p = nat (?n mod p)" by linarith
    moreover have "nat (?n mod p) \<le> nat p" using \<open>?n mod p < p\<close> by linarith
    ultimately show ?thesis using l False by simp
  qed
qed

text \<open>
  Claim C2. For a positive page size, \<open>paginate_text\<close> returns \<open>ceil(N / P)\<close> pages
  (none for the empty text); page \<open>k\<close> is the window of \<open>P\<close> characters starting at
  \<open>k * P\<close>, so every page but the last has exactly \<open>P\<close> characters and the last one holds
  the remainder (\<open>N mod P\<close> characters, or \<open>P\<close> when \<open>P\<close> divides \<open>N\<close>); the pages
  concatenated in order are the text.
\<close>

theorem paginate_text_pages:
  assumes "0 < p"
  shows "\<exists>pages. paginate_text text p = Inr pages
           \<and> int (length pages) = \<lceil>real (length text) / real_of_int p\<rceil>
           \<and> (text = [] \<longrightarrow> pages = [])
           \<and> (\<forall>k < length pages. pages ! k = take (nat p) (drop (k * nat p) text))
           \<and> (\<forall>k. Suc k < length pages \<longrightarrow> length (pages ! k) = nat p)
           \<and> (pages \<noteq> [] \<longrightarrow> length (last pages) =
                 (if int (length text) mod p = 0 then nat p else nat (int (length text) mod p)))
           \<and> concat pages = text"
proof -
  let ?r = "py_range 0 (int (length text)) p"
  let ?pages = "map (\<lambda>i. slice text i (i + p)) ?r"
  have p1: "paginate_text text p = Inr ?pages" using assms by (rule paginate_pos)
  have p2: "int (length ?pages) = \<lceil>real (length text) / real_of_int p\<rceil>"
    using length_pages[OF assms, of "text"] by simp
  have p3: "text = [] \<longrightarrow> ?pages = []" using assms by (simp add: py_range_pos)
  have p4: "\<forall>k < length ?pages. ?pages ! k = take (nat p) (drop (k * nat p) text)"
    using nth_pages[OF assms, of _ "text"] by simp
  have p5: "\<forall>k. Suc k < length ?pages \<longrightarrow> length (?pages ! k) = nat p"
  proof (intro allI impI)
    fix k assume k: "Suc k < length ?pages"
    then have "?pages ! k = take (nat p) (drop (k * nat p) text)" using p4 by simp
    moreover have "length (take (nat p) (drop (k * nat p) text)) = nat p"
      using assms k by (intro length_full_page) simp_all
    ultimately show "length (?pages ! k) = nat p" by simp
  qed
  have p6: "?pages \<noteq> [] \<longrightarrow> length (last ?pages) =
                 (if int (length text) mod p = 0 then nat p else nat (int (length text) mod p))"
    using length_last_page[OF assms, of "text"] by simp
  have p7: "concat ?pages = text" using concat_windows[OF assms, of 0 "text"] by simp
  from p1 p2 p3 p4 p5 p6 p7 show ?thesis by blast
qed

theorem paginate_text_pages_witness:
  "(0::int) < 3 \<and> (\<exists>pages. paginate_text (pystr_of ''abcdefgh'') 3 = Inr pages
           \<and> int (length pages) = \<lceil>real (length (pystr_of ''abcdefgh'')) / real_of_int 3\<rceil>
           \<and> (pystr_of ''abcdefgh'' = [] \<longrightarrow> pages = [])
           \<and> (\<forall>k < length pages. pages ! k = take (nat 3) (drop (k * nat 3) (pystr_of ''abcdefgh'')))
           \<and> (\<forall>k. Suc k < length pages \<longrightarrow> length (pages ! k) = nat 3)
           \<and> (pages \<noteq> [] \<longrightarrow> length (last pages) =
                 (if int (length (pystr_of ''abcdefgh'')) mod 3 = 0 then nat 3 else nat (int (length (pystr_of ''abcdefgh'')) mod 3)))
           \<and> concat pages = pystr_of ''abcdefgh'')
   \<and> paginate_text (pystr_of ''abcdefgh'') 3 = Inr [pystr_of ''abc'', pystr_of ''def'', pystr_of ''gh'']"
proof -
  have h: "(0::int) < 3" by simp
  have v: "paginate_text (pystr_of ''abcdefgh'') 3 = Inr [pystr_of ''abc'', pystr_of ''def'', pystr_of ''gh'']"
    by (simp add: paginate_text_def py_range.simps slice_def slice_index_def pystr_of_def)
  from h paginate_text_pages[OF h, of "pystr_of ''abcdefgh''"] v show ?thesis by blast
qed

text \<open>
  Claim C4, as the code has it. \<open>paginate_text\<close> checks nothing itself. It fails only for
  a page size of zero, with the \<open>ValueError\<close> that \<open>range\<close> raises for a zero step. For a
  positive page size it never fails, and for a negative page size it does not fail either:
  the range is empty and so is the list of pages.
\<close>

theorem paginate_text_failure_modes:
  "(0 < p \<longrightarrow> (\<exists>pages. paginate_text text p = Inr pages))
   \<and> (p = 0 \<longrightarrow> paginate_text text p = Inl ValueError)
   \<and> (p < 0 \<longrightarrow> paginate_text text p = Inr [])"
  by (simp add: paginate_text_def py_range.simps)

theorem paginate_text_failure_modes_witness:
  "(\<exists>pages. paginate_text (pystr_of ''abc'') 2 = Inr pages)
   \<and> paginate_text (pystr_of ''abc'') 0 = Inl ValueError
   \<and> paginate_text (pystr_of ''abc'') (- 2) = Inr []"
  using paginate_text_failure_modes [of 2 "pystr_of ''abc''"]
    paginate_text_failure_modes [of 0 "pystr_of ''abc''"]
    paginate_text_failure_modes [of "- 2" "pystr_of ''abc''"]
  by simp

text \<open>
  Claim C4 as stated fails: a negative page size is not rejected. For the text \<open>abc\<close> and
  the page size \<open>-1\<close> the call returns normally.
\<close>

theorem paginate_text_negative_not_rejected:
  "\<not> isl (paginate_text (pystr_of ''abc'') (- 1))"
  by (simp add: paginate_text_def py_range.simps)

text \<open>
  Claim C10. For every text and every negative page size, \<open>paginate_text\<close> returns the
  empty list of pages and raises nothing.
\<close>

theorem paginate_text_negative:
  "p < 0 \<Longrightarrow> paginate_text text p = Inr []"
  by (simp add: paginate_text_def py_range.simps)

theorem paginate_text_negative_witness:
  "(- 25 :: int) < 0 \<and> paginate_text (pystr_of ''Alice went to Paris.'') (- 25) = Inr []"
  using paginate_text_negative [of "- 25" "pystr_of ''Alice went to Paris.''"]
  by simp

section \<open>The add operation\<close>

text \<open>
  Claim C3. The add operation checks \<open>0 \<le> start < end \<le> N\<close>. When the check fails it
  shows the error message "Invalid annotation positions." and the annotation list is the
  one it was given; when it holds, the list is extended at its end by the record of
  \<open>start_pos\<close>, \<open>end_pos\<close>, \<open>label\<close> and \<open>text_fragment = text[start:end]\<close>.
\<close>

theorem add_annotation_validates:
  "(0 \<le> s \<and> s < e \<and> e \<le> int (length text) \<longrightarrow>
      add_annotation text anns s e l =
        (anns @ [\<lparr>start_pos = s, end_pos = e, label = l, text_fragment = slice text s e\<rparr>],
         Success (pystr_of ''Annotation Added!'')))
   \<and> (\<not> (0 \<le> s \<and> s < e \<and> e \<le> int (length text)) \<longrightarrow>
      add_annotation text anns s e l = (anns, Error (pystr_of ''Invalid annotation positions.''))
      \<and> length (fst (add_annotation text anns s e l)) = length anns)"
  by (simp add: add_annotation_def)

theorem add_annotation_validates_witness:
  "add_annotation (pystr_of ''Alice went to Paris.'') [] 0 5 (pystr_of ''PERSON'') =
     ([\<lparr>start_pos = 0, end_pos = 5, label = pystr_of ''PERSON'',
        text_fragment = pystr_of ''Alice''\<rparr>], Success (pystr_of ''Annotation Added!''))
   \<and> add_annotation (pystr_of ''Alice went to Paris.'') [] 5 3 (pystr_of ''PERSON'') =
     ([], Error (pystr_of ''Invalid annotation positions.''))"
  using add_annotation_validates [of 0 5 "pystr_of ''Alice went to Paris.''" "[]" "pystr_of ''PERSON''"]
    add_annotation_validates [of 5 3 "pystr_of ''Alice went to Paris.''" "[]" "pystr_of ''PERSON''"]
  by (simp add: pystr_of_def slice_def slice_index_def)

section \<open>The renderer\<close>

lemma render_step_fragments:
  "render_step text (acc, c) a =
     (acc @ (if c < start_pos a then [Plain (slice text c (start_pos a))] else [])
          @ [Highlight (slice text (start_pos a) (end_pos a)) (label a) (pystr_of ''#8ef'')],
      end_pos a)"
  by (simp add: render_step_def Let_def)

lemma highlights_sweep:
  "filter is_highlight (fst (foldl (render_step text) (acc, c) xs)) =
     filter is_highlight acc
     @ map (\<lambda>a. Highlight (slice text (start_pos a) (end_pos a)) (label a) (pystr_of ''#8ef'')) xs"
proof (induction xs arbitrary: acc c)
  case Nil
  then show ?case by simp
next
  case (Cons a xs)
  show ?case
    by (simp only: foldl_Cons render_step_fragments Cons.IH) simp
qed

lemma highlights_get_annotated_text:
  "filter is_highlight (get_annotated_text text anns) =
     map (\<lambda>a. Highlight (slice text (start_pos a) (end_pos a)) (label a) (pystr_of ''#8ef''))
       (sort_key start_pos anns)"
proof -
  obtain acc c where st: "foldl (render_step text) ([], 0) (sort_key start_pos anns) = (acc, c)"
    by (cases "foldl (render_step text) ([], 0) (sort_key start_pos anns)")
  have "filter is_highlight acc =
     map (\<lambda>a. Highlight (slice text (start_pos a) (end_pos a)) (label a) (pystr_of ''#8ef''))
       (sort_key start_pos anns)"
    using highlights_sweep[of "text" "[]" 0 "sort_key start_pos anns"] st by simp
  then show ?thesis by (simp add: get_annotated_text_def Let_def st)
qed

text \<open>
  Claim C1. For the text \<open>abcdefghij\<close> and the annotations \<open>{0, 5, A}\<close> and
  \<open>{3, 8, B}\<close> the renderer returns the highlight \<open>abcde\<close>, the highlight \<open>defgh\<close> and
  the plain fragment \<open>ij\<close>, with no plain gap between the two highlights. In general the
  highlights of the output are those of all annotations, in the order of their
  \<open>start_pos\<close>, and an iteration puts a plain fragment before its highlight exactly when
  the annotation starts beyond the cursor.
\<close>

theorem get_annotated_text_overlap:
  "get_annotated_text (pystr_of ''abcdefghij'')
     [\<lparr>start_pos = 0, end_pos = 5, label = pystr_of ''A'', text_fragment = pystr_of ''abcde''\<rparr>,
      \<lparr>start_pos = 3, end_pos = 8, label = pystr_of ''B'', text_fragment = pystr_of ''defgh''\<rparr>]
   = [Highlight (pystr_of ''abcde'') (pystr_of ''A'') (pystr_of ''#8ef''),
      Highlight (pystr_of ''defgh'') (pystr_of ''B'') (pystr_of ''#8ef''),
      Plain (pystr_of ''ij'')]
   \<and> filter is_highlight (get_annotated_text text anns) =
       map (\<lambda>a. Highlight (slice text (start_pos a) (end_pos a)) (label a) (pystr_of ''#8ef''))
         (sort_key start_pos anns)
   \<and> fst (render_step text (acc, cursor) a) =
       acc @ (if cursor < start_pos a then [Plain (slice text cursor (start_pos a))] else [])
           @ [Highlight (slice text (start_pos a) (end_pos a)) (label a) (pystr_of ''#8ef'')]"
proof -
  have "get_annotated_text (pystr_of ''abcdefghij'')
     [\<lparr>start_pos = 0, end_pos = 5, label = pystr_of ''A'', text_fragment = pystr_of ''abcde''\<rparr>,
      \<lparr>start_pos = 3, end_pos = 8, label = pystr_of ''B'', text_fragment = pystr_of ''defgh''\<rparr>]
   = [Highlight (pystr_of ''abcde'') (pystr_of ''A'') (pystr_of ''#8ef''),
      Highlight (pystr_of ''defgh'') (pystr_of ''B'') (pystr_of ''#8ef''),
      Plain (pystr_of ''ij'')]"
    by (simp add: get_annotated_text_def render_step_def slice_def slice_from_def
        slice_index_def pystr_of_def)
  then show ?thesis
    by (simp only: highlights_get_annotated_text render_step_fragments fst_conv simp_thms)
qed

theorem get_annotated_text_overlap_witness:
  "fst (render_step (pystr_of ''abcdefghij'') ([], 0)
          \<lparr>start_pos = 3, end_pos = 8, label = pystr_of ''B'', text_fragment = pystr_of ''defgh''\<rparr>)
     = [Plain (pystr_of ''abc''), Highlight (pystr_of ''defgh'') (pystr_of ''B'') (pystr_of ''#8ef'')]
   \<and> fst (render_step (pystr_of ''abcdefghij'') ([], 5)
          \<lparr>start_pos = 3, end_pos = 8, label = pystr_of ''B'', text_fragment = pystr_of ''defgh''\<rparr>)
     = [Highlight (pystr_of ''defgh'') (pystr_of ''B'') (pystr_of ''#8ef'')]"
  using get_annotated_text_overlap [of "pystr_of ''abcdefghij''" "[]" "[]" 0
      "\<lparr>start_pos = 3, end_pos = 8, label = pystr_of ''B'', text_fragment = pystr_of ''defgh''\<rparr>"]
    get_annotated_text_overlap [of "pystr_of ''abcdefghij''" "[]" "[]" 5
      "\<lparr>start_pos = 3, end_pos = 8, label = pystr_of ''B'', text_fragment = pystr_of ''defgh''\<rparr>"]
  by (simp add: slice_def slice_index_def pystr_of_def)

text \<open>
  Claim C7. With no annotations the renderer returns the whole text as one plain
  fragment, and no fragment at all when the text is empty.
\<close>

theorem get_annotated_text_no_annotations:
  "get_annotated_text text [] = (if text = [] then [] else [Plain text])"
  by (simp add: get_annotated_text_def slice_from_def slice_index_def)

theorem get_annotated_text_no_annotations_witness:
  "get_annotated_text (pystr_of ''abc'') [] = [Plain (pystr_of ''abc'')]
   \<and> get_annotated_text [] [] = []"
  using get_annotated_text_no_annotations [of "pystr_of ''abc''"]
    get_annotated_text_no_annotations [of "[]"]
  by (simp add: pystr_of_def)

text \<open>
  Claim C9. Every iteration sets the cursor to the end of its annotation, whatever the
  cursor was. For the text \<open>abcdefghij\<close> and the annotations \<open>{0, 10, A}\<close> and
  \<open>{2, 3, B}\<close> the second annotation moves the cursor back from 10 to 3, and the renderer
  returns the highlight \<open>abcdefghij\<close>, the highlight \<open>c\<close> and the plain fragment
  \<open>defghij\<close>, whose characters were already part of the first highlight.
\<close>

theorem get_annotated_text_nested:
  "get_annotated_text (pystr_of ''abcdefghij'')
     [\<lparr>start_pos = 0, end_pos = 10, label = pystr_of ''A'',
        text_fragment = pystr_of ''abcdefghij''\<rparr>,
      \<lparr>start_pos = 2, end_pos = 3, label = pystr_of ''B'', text_fragment = pystr_of ''c''\<rparr>]
   = [Highlight (pystr_of ''abcdefghij'') (pystr_of ''A'') (pystr_of ''#8ef''),
      Highlight (pystr_of ''c'') (pystr_of ''B'') (pystr_of ''#8ef''),
      Plain (pystr_of ''defghij'')]
   \<and> snd (render_step text st a) = end_pos a"
  by (simp add: get_annotated_text_def render_step_def slice_def slice_from_def
      slice_index_def pystr_of_def Let_def)

subsection \<open>Disjoint spans\<close>

lemma disjoint_spans_sym: "disjoint_spans a b \<Longrightarrow> disjoint_spans b a"
  by (auto simp: disjoint_spans_def)

lemma sorted_wrt_disjoint_insort:
  "sorted_wrt disjoint_spans (insort_key f x xs) = sorted_wrt disjoint_spans (x # xs)"
  by (induction xs) (auto simp: set_insort_key dest: disjoint_spans_sym)

lemma sorted_wrt_disjoint_sort:
  "sorted_wrt disjoint_spans (sort_key f xs) = sorted_wrt disjoint_spans xs"
  by (induction xs) (auto simp: sorted_wrt_disjoint_insort)

lemma slice_inner:
  assumes "0 \<le> i" "i \<le> j" "j \<le> int (length xs)"
  shows "slice xs i j = take (nat j - nat i) (drop (nat i) xs)"
  using assms by (simp add: slice_def slice_index_def Let_def)

lemma drop_split:
  assumes "i \<le> j"
  shows "take (j - i) (drop i xs) @ drop j xs = drop i (xs::'a list)"
proof -
  have "drop j xs = drop (j - i) (drop i xs)" using assms by simp
  then show ?thesis by (simp only: append_take_drop_id)
qed

lemma render_step_covers:
  assumes "0 \<le> c" "c \<le> start_pos a" "valid_span text a"
  shows "concat (map fragment_text (fst (render_step text (acc, c) a))) @ drop (nat (end_pos a)) text
         = concat (map fragment_text acc) @ drop (nat c) text"
    and "snd (render_step text (acc, c) a) = end_pos a"
proof -
  let ?s = "start_pos a" and ?e = "end_pos a"
  from assms have b: "0 \<le> ?s" "?s < ?e" "?e \<le> int (length text)" by (simp_all add: valid_span_def)
  have h: "slice text ?s ?e = take (nat ?e - nat ?s) (drop (nat ?s) text)"
    using b by (intro slice_inner) simp_all
  have g: "slice text c ?s = take (nat ?s - nat c) (drop (nat c) text)"
    using assms b by (intro slice_inner) simp_all
  have 1: "take (nat ?e - nat ?s) (drop (nat ?s) text) @ drop (nat ?e) text = drop (nat ?s) text"
    using b by (intro drop_split) simp
  have 2: "take (nat ?s - nat c) (drop (nat c) text) @ drop (nat ?s) text = drop (nat c) text"
    using assms by (intro drop_split) simp
  show "snd (render_step text (acc, c) a) = end_pos a" by (simp add: render_step_def Let_def)
  show "concat (map fragment_text (fst (render_step text (acc, c) a))) @ drop (nat ?e) text
         = concat (map fragment_text acc) @ drop (nat c) text"
  proof (cases "c < ?s")
    case True
    then show ?thesis using 1 2 by (simp add: render_step_def Let_def h g)
  next
    case False
    with assms have "c = ?s" by simp
    then show ?thesis using 1 by (simp add: render_step_def Let_def h)
  qed
qed

lemma sweep_covers:
  assumes "0 \<le> c" "c \<le> int (length text)"
    and "\<forall>a\<in>set xs. valid_span text a"
    and "\<forall>a\<in>set xs. c \<le> start_pos a"
    and "sorted (map start_pos xs)"
    and "sorted_wrt disjoint_spans xs"
  shows "concat (map fragment_text (fst (foldl (render_step text) (acc, c) xs)))
           @ drop (nat (snd (foldl (render_step text) (acc, c) xs))) text
         = concat (map fragment_text acc) @ drop (nat c) text
         \<and> 0 \<le> snd (foldl (render_step text) (acc, c) xs)
         \<and> snd (foldl (render_step text) (acc, c) xs) \<le> int (length text)"
  using assms
proof (induction xs arbitrary: acc c)
  case Nil
  then show ?case by simp
next
  case (Cons a xs)
  let ?st = "render_step text (acc, c) a"
  from Cons.prems have va: "valid_span text a" and ca: "c \<le> start_pos a" by simp_all
  have s: "snd ?st = end_pos a" and
    f: "concat (map fragment_text (fst ?st)) @ drop (nat (end_pos a)) text
         = concat (map fragment_text acc) @ drop (nat c) text"
    using render_step_covers[OF Cons.prems(1) ca va] by simp_all
  have st: "?st = (fst ?st, end_pos a)" using s by (metis prod.collapse)
  have e0: "0 \<le> end_pos a" "end_pos a \<le> int (length text)"
    using va by (simp_all add: valid_span_def)
  have nxt: "\<forall>b\<in>set xs. end_pos a \<le> start_pos b"
  proof
    fix b assume b: "b \<in> set xs"
    with Cons.prems have "start_pos a \<le> start_pos b" "disjoint_spans a b" "valid_span text b"
      by auto
    then show "end_pos a \<le> start_pos b" by (auto simp: disjoint_spans_def valid_span_def)
  qed
  have IH: "concat (map fragment_text (fst (foldl (render_step text) (fst ?st, end_pos a) xs)))
           @ drop (nat (snd (foldl (render_step text) (fst ?st, end_pos a) xs))) text
         = concat (map fragment_text (fst ?st)) @ drop (nat (end_pos a)) text
         \<and> 0 \<le> snd (foldl (render_step text) (fst ?st, end_pos a) xs)
         \<and> snd (foldl (render_step text) (fst ?st, end_pos a) xs) \<le> int (length text)"
    using Cons.prems e0 nxt by (intro Cons.IH) simp_all
  have "foldl (render_step text) (acc, c) (a # xs) = foldl (render_step text) (fst ?st, end_pos a) xs"
    using st by simp
  with IH f show ?case by simp
qed

text \<open>
  Claim C8. When every span satisfies \<open>0 \<le> start_pos < end_pos \<le> N\<close> and no two spans
  of the list overlap, the texts of the fragments returned by \<open>get_annotated_text\<close>,
  concatenated in order, are the original text.
\<close>

theorem get_annotated_text_covers:
  assumes valid: "\<forall>a\<in>set anns. valid_span text a"
    and disj: "\<forall>i<length anns. \<forall>j<length anns. i \<noteq> j \<longrightarrow> disjoint_spans (anns ! i) (anns ! j)"
  shows "concat (map fragment_text (get_annotated_text text anns)) = text"
proof -
  let ?xs = "sort_key start_pos anns"
  let ?st = "foldl (render_step text) ([], 0) ?xs"
  have "sorted_wrt disjoint_spans anns"
    using disj by (simp add: sorted_wrt_iff_nth_less)
  then have d: "sorted_wrt disjoint_spans ?xs" by (simp add: sorted_wrt_disjoint_sort)
  have v: "\<forall>a\<in>set ?xs. valid_span text a" using valid by simp
  then have z: "\<forall>a\<in>set ?xs. 0 \<le> start_pos a" by (simp add: valid_span_def)
  have s: "sorted (map start_pos ?xs)" by simp
  have c: "concat (map fragment_text (fst ?st)) @ drop (nat (snd ?st)) text
             = concat (map fragment_text []) @ drop (nat 0) text
           \<and> 0 \<le> snd ?st \<and> snd ?st \<le> int (length text)"
    using v z s d by (intro sweep_covers) simp_all
  show ?thesis
  proof (cases "snd ?st < int (length text)")
    case True
    with c have "slice_from text (snd ?st) = drop (nat (snd ?st)) text"
      by (simp add: slice_from_def slice_index_def)
    with c True show ?thesis by (simp add: get_annotated_text_def Let_def)
  next
    case False
    with c have "drop (nat (snd ?st)) text = []" by simp
    with c False show ?thesis by (simp add: get_annotated_text_def Let_def)
  qed
qed

theorem get_annotated_text_covers_witness:
  "valid_span (pystr_of ''Alice went to Paris.'')
        \<lparr>start_pos = 14, end_pos = 19, label = pystr_of ''LOCATION'', text_fragment = pystr_of ''Paris''\<rparr>
   \<and> valid_span (pystr_of ''Alice went to Paris.'')
        \<lparr>start_pos = 0, end_pos = 5, label = pystr_of ''PERSON'', text_fragment = pystr_of ''Alice''\<rparr>
   \<and> disjoint_spans
        \<lparr>start_pos = 14, end_pos = 19, label = pystr_of ''LOCATION'', text_fragment = pystr_of ''Paris''\<rparr>
        \<lparr>start_pos = 0, end_pos = 5, label = pystr_of ''PERSON'', text_fragment = pystr_of ''Alice''\<rparr>
   \<and> concat (map fragment_text (get_annotated_text (pystr_of ''Alice went to Paris.'')
      [\<lparr>start_pos = 14, end_pos = 19, label = pystr_of ''LOCATION'', text_fragment = pystr_of ''Paris''\<rparr>,
       \<lparr>start_pos = 0, end_pos = 5, label = pystr_of ''PERSON'', text_fragment = pystr_of ''Alice''\<rparr>]))
     = pystr_of ''Alice went to Paris.''
   \<and> get_annotated_text (pystr_of ''Alice went to Paris.'')
      [\<lparr>start_pos = 14, end_pos = 19, label = pystr_of ''LOCATION'', text_fragment = pystr_of ''Paris''\<rparr>,
       \<lparr>start_pos = 0, end_pos = 5, label = pystr_of ''PERSON'', text_fragment = pystr_of ''Alice''\<rparr>]
     = [Highlight (pystr_of ''Alice'') (pystr_of ''PERSON'') (pystr_of ''#8ef''),
        Plain (pystr_of '' went to ''),
        Highlight (pystr_of ''Paris'') (pystr_of ''LOCATION'') (pystr_of ''#8ef''),
        Plain (pystr_of ''.'')]"
proof -
  let ?t = "pystr_of ''Alice went to Paris.''"
  let ?a = "\<lparr>start_pos = 14, end_pos = 19, label = pystr_of ''LOCATION'', text_fragment = pystr_of ''Paris''\<rparr>"
  let ?b = "\<lparr>start_pos = 0, end_pos = 5, label = pystr_of ''PERSON'', text_fragment = pystr_of ''Alice''\<rparr>"
  have v: "\<forall>a\<in>set [?a, ?b]. valid_span ?t a"
    by (simp add: valid_span_def pystr_of_def)
  have d: "disjoint_spans ?a ?b" "disjoint_spans ?b ?a" by (simp_all add: disjoint_spans_def)
  then have dd: "\<forall>i<length [?a, ?b]. \<forall>j<length [?a, ?b]. i \<noteq> j \<longrightarrow>
      disjoint_spans ([?a, ?b] ! i) ([?a, ?b] ! j)"
    by (simp add: less_Suc_eq)
  have e: "get_annotated_text ?t [?a, ?b]
     = [Highlight (pystr_of ''Alice'') (pystr_of ''PERSON'') (pystr_of ''#8ef''),
        Plain (pystr_of '' went to ''),
        Highlight (pystr_of ''Paris'') (pystr_of ''LOCATION'') (pystr_of ''#8ef''),
        Plain (pystr_of ''.'')]"
    by (simp add: get_annotated_text_def render_step_def slice_def slice_from_def
      slice_index_def pystr_of_def)
  from v have "valid_span ?t ?a" "valid_span ?t ?b" by simp_all
  with d(1) e get_annotated_text_covers [OF v dd] show ?thesis by blast
qed

section \<open>The serializer\<close>

subsection \<open>Strings\<close>

lemma hexval_hex_digit: "d < 16 \<Longrightarrow> hexval (hex_digit d) = Some d"
  by (simp add: hexval_def hex_digit_def)

lemma hex4_value:
  fixes n :: nat
  assumes "n < 65536"
  shows "((n div 4096 mod 16 * 16 + n div 256 mod 16) * 16 + n div 16 mod 16) * 16 + n mod 16 = n"
proof -
  define a b c where "a = n div 16" and "b = a div 16" and "c = b div 16"
  have b: "n div 256 = b" unfolding a_def b_def by (simp add: div_mult2_eq)
  have c: "n div 4096 = c" unfolding a_def b_def c_def by (simp add: div_mult2_eq)
  have "c < 16" using assms unfolding c[symmetric] by simp
  then have c1: "c mod 16 * 16 + b mod 16 = b" unfolding c_def by simp
  have b1: "b * 16 + a mod 16 = a" unfolding b_def by simp
  have a1: "a * 16 + n mod 16 = n" unfolding a_def by simp
  show ?thesis unfolding b c a_def[symmetric] c1 b1 a1 ..
qed

lemma map_hexval_hex4:
  "map hexval (hex4 n) =
     [Some (n div 4096 mod 16), Some (n div 256 mod 16), Some (n div 16 mod 16), Some (n mod 16)]"
  by (simp add: hex4_def hexval_hex_digit)

lemma decode_hex4: "n < 0x10000 \<Longrightarrow> decode_uXXXX (hex4 n) = Some n"
  unfolding decode_uXXXX_def map_hexval_hex4 by (simp only: list.case option.case hex4_value)

lemma or_push_bit:
  fixes a b :: nat
  assumes "b < 2 ^ n"
  shows "push_bit n a OR b = a * 2 ^ n + b"
proof -
  have b: "take_bit n b = b" using assms by (simp add: take_bit_nat_eq_self)
  have "push_bit n a AND take_bit n b = 0"
    by (rule bit_eqI) (auto simp: bit_simps)
  then have "push_bit n a + take_bit n b = push_bit n a OR take_bit n b"
    by (rule disjunctive_add_eq_or)
  then show ?thesis by (simp add: b push_bit_eq_mult)
qed

lemma high_surrogate:
  fixes x :: nat
  assumes "x < 1024"
  shows "0xd800 OR x = 0xd800 + x"
proof -
  have "(0xd800 :: nat) = push_bit 10 54" by (simp add: push_bit_eq_mult)
  then have "0xd800 OR x = push_bit 10 54 OR x" by simp
  also have "\<dots> = 54 * 2 ^ 10 + x" using assms by (intro or_push_bit) simp
  finally show ?thesis by simp
qed

lemma low_surrogate:
  fixes x :: nat
  assumes "x < 1024"
  shows "0xdc00 OR x = 0xdc00 + x"
proof -
  have "(0xdc00 :: nat) = push_bit 10 55" by (simp add: push_bit_eq_mult)
  then have "0xdc00 OR x = push_bit 10 55 OR x" by simp
  also have "\<dots> = 55 * 2 ^ 10 + x" using assms by (intro or_push_bit) simp
  finally show ?thesis by simp
qed

lemma and_0x3ff: "(n :: nat) AND 0x3ff = n mod 1024"
proof -
  have "(0x3ff :: nat) = mask 10" by (simp add: mask_eq_exp_minus_1)
  then have "n AND 0x3ff = n AND mask 10" by simp
  also have "\<dots> = take_bit 10 n" by (simp add: take_bit_eq_mask)
  also have "\<dots> = n mod 1024" by (simp add: take_bit_eq_mod)
  finally show ?thesis .
qed

lemma drop_bit_10: "drop_bit 10 (n :: nat) = n div 1024"
  by (simp add: drop_bit_eq_div)

lemma length_hex4: "length (hex4 n) = 4"
  by (simp add: hex4_def)

lemma scanstring_plain:
  "c \<noteq> 34 \<Longrightarrow> c \<noteq> 92 \<Longrightarrow> 32 \<le> c \<Longrightarrow> scanstring (c # t) = append_char c (scanstring t)"
  by simp

lemma scanstring_backslash:
  "esc \<noteq> 117 \<Longrightarrow> backslash esc = Some char \<Longrightarrow>
   scanstring (92 # esc # t) = append_char char (scanstring t)"
  by simp

lemma scanstring_u_single:
  assumes "decode_uXXXX (take 4 s1) = Some uni" "\<not> (0xd800 \<le> uni \<and> uni \<le> 0xdbff)"
  shows "scanstring (92 # 117 # s1) = append_char uni (scanstring (drop 4 s1))"
  using assms by auto

lemma scanstring_u_pair:
  assumes "decode_uXXXX (take 4 s1) = Some uni" "0xd800 \<le> uni" "uni \<le> 0xdbff"
    and "take 2 (drop 4 s1) = [92, 117]"
    and "decode_uXXXX (take 4 (drop 6 s1)) = Some uni2" "0xdc00 \<le> uni2" "uni2 \<le> 0xdfff"
  shows "scanstring (92 # 117 # s1) =
         append_char (0x10000 + (push_bit 10 (uni - 0xd800) OR (uni2 - 0xdc00)))
           (scanstring (drop 10 s1))"
  using assms by simp

lemma escape_char_bmp:
  assumes "c \<notin> {92, 34, 8, 12, 10, 13, 9}" "\<not> (32 \<le> c \<and> c \<le> 126)" "c < 0x10000"
  shows "escape_char c = [92, 117] @ hex4 c"
  using assms by (simp add: escape_char_def)

lemma escape_char_astral:
  assumes "0x10000 \<le> c" "c < 0x110000"
  shows "escape_char c =
     [92, 117] @ hex4 (0xd800 + (c - 0x10000) div 1024) @ [92, 117]
     @ hex4 (0xdc00 + (c - 0x10000) mod 1024)"
proof -
  have "(c - 0x10000) div 1024 < 1024" using assms by simp
  then have d: "(c - 0x10000) div 1024 mod 1024 = (c - 0x10000) div 1024" by simp
  have h: "0xd800 OR ((c - 0x10000) div 1024) = 0xd800 + (c - 0x10000) div 1024"
    using \<open>(c - 0x10000) div 1024 < 1024\<close> by (rule high_surrogate)
  have l: "0xdc00 OR ((c - 0x10000) mod 1024) = 0xdc00 + (c - 0x10000) mod 1024"
    by (rule low_surrogate) simp
  show ?thesis using assms
    by (simp add: escape_char_def Let_def and_0x3ff drop_bit_10 d h l)
qed

lemma scanstring_escape_char:
  assumes "scalar_value c"
  shows "scanstring (escape_char c @ t) = append_char c (scanstring t)"
proof -
  consider (special) "c \<in> {92, 34, 8, 12, 10, 13, 9}"
    | (plain) "c \<notin> {92, 34, 8, 12, 10, 13, 9}" "32 \<le> c \<and> c \<le> 126"
    | (bmp) "c \<notin> {92, 34, 8, 12, 10, 13, 9}" "\<not> (32 \<le> c \<and> c \<le> 126)" "c < 0x10000"
    | (astral) "0x10000 \<le> c"
    by fastforce
  then show ?thesis
  proof cases
    case special
    then show ?thesis by (auto simp: escape_char_def backslash_def)
  next
    case plain
    then have "escape_char c = [c]" by (simp add: escape_char_def)
    with plain show ?thesis by (simp add: scanstring_plain del: scanstring.simps)
  next
    case bmp
    have e: "escape_char c @ t = 92 # 117 # (hex4 c @ t)"
      using bmp by (simp add: escape_char_bmp)
    have d: "decode_uXXXX (take 4 (hex4 c @ t)) = Some c"
      using bmp(3) by (simp add: length_hex4 decode_hex4)
    have n: "\<not> (0xd800 \<le> c \<and> c \<le> 0xdbff)" using assms by (auto simp: scalar_value_def)
    show ?thesis unfolding e scanstring_u_single[OF d n] by (simp add: length_hex4)
  next
    case astral
    with assms have lt: "c < 0x110000" by (simp add: scalar_value_def)
    define hi lo where "hi = 0xd800 + (c - 0x10000) div 1024" and "lo = 0xdc00 + (c - 0x10000) mod 1024"
    have hi: "0xd800 \<le> hi" "hi \<le> 0xdbff" "hi < 0x10000" using lt astral by (simp_all add: hi_def)
    have lo: "0xdc00 \<le> lo" "lo \<le> 0xdfff" "lo < 0x10000" by (simp_all add: lo_def)
    let ?s1 = "hex4 hi @ [92, 117] @ hex4 lo @ t"
    have e: "escape_char c @ t = 92 # 117 # ?s1"
      using astral lt by (simp add: escape_char_astral hi_def lo_def)
    have d1: "decode_uXXXX (take 4 ?s1) = Some hi" using hi(3) by (simp add: length_hex4 decode_hex4)
    have t2: "take 2 (drop 4 ?s1) = [92, 117]" by (simp add: length_hex4)
    have d2: "decode_uXXXX (take 4 (drop 6 ?s1)) = Some lo"
      using lo(3) by (simp add: length_hex4 decode_hex4)
    have r: "drop 10 ?s1 = t" by (simp add: length_hex4)
    have "push_bit 10 (hi - 0xd800) OR (lo - 0xdc00) = (hi - 0xd800) * 2 ^ 10 + (lo - 0xdc00)"
      by (rule or_push_bit) (simp add: lo_def)
    also have "\<dots> = c - 0x10000" by (simp add: hi_def lo_def)
    finally have v: "0x10000 + (push_bit 10 (hi - 0xd800) OR (lo - 0xdc00)) = c"
      using astral by simp
    show ?thesis
      unfolding e scanstring_u_pair[OF d1 hi(1) hi(2) t2 d2 lo(1) lo(2)] r v ..
  qed
qed

lemma scanstring_u_high:
  assumes "decode_uXXXX (take 4 s1) = Some uni" "next_not_low (drop 4 s1)"
  shows "scanstring (92 # 117 # s1) = append_char uni (scanstring (drop 4 s1))"
proof (cases "take 2 (drop 4 s1) = [92, 117]")
  case False
  with assms(1) show ?thesis by simp
next
  case True
  with assms(2) obtain u where "decode_uXXXX (take 4 (drop 2 (drop 4 s1))) = Some u"
    "\<not> (0xdc00 \<le> u \<and> u \<le> 0xdfff)" by (auto simp: next_not_low_def)
  with assms(1) True show ?thesis by (auto simp: add.commute)
qed

lemma scanstring_py_char:
  assumes "py_char c" "0xd800 \<le> c \<and> c \<le> 0xdbff \<longrightarrow> next_not_low t"
  shows "scanstring (escape_char c @ t) = append_char c (scanstring t)"
proof (cases "scalar_value c")
  case True
  then show ?thesis by (rule scanstring_escape_char)
next
  case False
  with assms(1) have s: "0xd800 \<le> c" "c \<le> 0xdfff" by (auto simp: scalar_value_def py_char_def)
  then have e: "escape_char c @ t = 92 # 117 # (hex4 c @ t)"
    by (simp add: escape_char_bmp)
  have d: "decode_uXXXX (take 4 (hex4 c @ t)) = Some c"
    using s by (simp add: length_hex4 decode_hex4)
  show ?thesis
  proof (cases "c \<le> 0xdbff")
    case True
    with s assms(2) have "next_not_low (drop 4 (hex4 c @ t))" by (simp add: length_hex4)
    from scanstring_u_high[OF d this] show ?thesis unfolding e by (simp add: length_hex4)
  next
    case False
    then have "\<not> (0xd800 \<le> c \<and> c \<le> 0xdbff)" by simp
    from scanstring_u_single[OF d this] show ?thesis unfolding e by (simp add: length_hex4)
  qed
qed

lemma next_not_low_quote: "next_not_low (34 # rest)"
  by (simp add: next_not_low_def)

lemma next_not_low_escape:
  assumes "py_char l" "\<not> (0xdc00 \<le> l \<and> l \<le> 0xdfff)"
  shows "next_not_low (escape_char l @ t)"
proof -
  consider (special) "l \<in> {92, 34, 8, 12, 10, 13, 9}"
    | (plain) "l \<notin> {92, 34, 8, 12, 10, 13, 9}" "32 \<le> l \<and> l \<le> 126"
    | (bmp) "l \<notin> {92, 34, 8, 12, 10, 13, 9}" "\<not> (32 \<le> l \<and> l \<le> 126)" "l < 0x10000"
    | (astral) "0x10000 \<le> l"
    by fastforce
  then show ?thesis
  proof cases
    case special
    then obtain x where "escape_char l = [92, x]" "x \<noteq> 117"
      by (auto simp: escape_char_def)
    then show ?thesis by (simp add: next_not_low_def)
  next
    case plain
    then have "escape_char l = [l]" "l \<noteq> 92" by (simp_all add: escape_char_def)
    then show ?thesis by (cases t) (simp_all add: next_not_low_def)
  next
    case bmp
    then have "escape_char l @ t = 92 # 117 # (hex4 l @ t)" by (simp add: escape_char_bmp)
    moreover have "decode_uXXXX (take 4 (hex4 l @ t)) = Some l"
      using bmp(3) by (simp add: length_hex4 decode_hex4)
    ultimately show ?thesis using assms(2) by (simp add: next_not_low_def)
  next
    case astral
    define hi where "hi = 0xd800 + (l - 0x10000) div 1024"
    have lt: "l < 0x110000" using assms(1) by (simp add: py_char_def)
    then have hi: "hi \<le> 0xdbff" "hi < 0x10000" using astral by (simp_all add: hi_def)
    have "escape_char l @ t = 92 # 117 # (hex4 hi @ [92, 117] @ hex4 (0xdc00 + (l - 0x10000) mod 1024) @ t)"
      using astral lt by (simp add: escape_char_astral hi_def)
    moreover have "decode_uXXXX (take 4 (hex4 hi @ [92, 117] @ hex4 (0xdc00 + (l - 0x10000) mod 1024) @ t)) = Some hi"
      using hi(2) by (simp add: length_hex4 decode_hex4)
    ultimately show ?thesis using hi(1) by (simp add: next_not_low_def)
  qed
qed

lemma scanstring_joined:
  assumes "py_str s"
  shows "scanstring (concat (map escape_char s) @ 34 # rest) = Inr (join_surrogates s, rest)"
  using assms
proof (induction s rule: join_surrogates.induct)
  case (1 h l s)
  from 1(3) have ph: "py_char h" and pl: "py_char l" and ps: "py_str s" "py_str (l # s)"
    by (simp_all add: py_str_def)
  let ?E = "concat (map escape_char s) @ 34 # rest"
  show ?case
  proof (cases "0xd800 \<le> h \<and> h \<le> 0xdbff \<and> 0xdc00 \<le> l \<and> l \<le> 0xdfff")
    case True
    let ?s1 = "hex4 h @ [92, 117] @ hex4 l @ ?E"
    have e: "concat (map escape_char (h # l # s)) @ 34 # rest = 92 # 117 # ?s1"
      using True by (simp add: escape_char_bmp)
    have d1: "decode_uXXXX (take 4 ?s1) = Some h" using True by (simp add: length_hex4 decode_hex4)
    have t2: "take 2 (drop 4 ?s1) = [92, 117]" by (simp add: length_hex4)
    have d2: "decode_uXXXX (take 4 (drop 6 ?s1)) = Some l"
      using True by (simp add: length_hex4 decode_hex4)
    have r: "drop 10 ?s1 = ?E" by (simp add: length_hex4)
    from True have c: "0xd800 \<le> h" "h \<le> 0xdbff" "0xdc00 \<le> l" "l \<le> 0xdfff" by simp_all
    have "scanstring ?E = Inr (join_surrogates s, rest)" using 1(1)[OF True ps(1)] .
    then show ?thesis
      unfolding e scanstring_u_pair[OF d1 c(1) c(2) t2 d2 c(3) c(4)] r
      using True by (simp add: append_char_def)
  next
    case False
    let ?T = "escape_char l @ ?E"
    have "0xd800 \<le> h \<and> h \<le> 0xdbff \<longrightarrow> next_not_low ?T"
      using False pl by (auto intro: next_not_low_escape)
    with ph have "scanstring (escape_char h @ ?T) = append_char h (scanstring ?T)"
      by (rule scanstring_py_char)
    moreover have "scanstring ?T = Inr (join_surrogates (l # s), rest)"
      using 1(2)[OF False ps(2)] by simp
    ultimately show ?thesis using False by (simp add: append_char_def)
  qed
next
  case 3
  then show ?case by simp
next
  case (2 v)
  then have "py_char v" by (simp add: py_str_def)
  then have "scanstring (escape_char v @ 34 # rest) = append_char v (scanstring (34 # rest))"
    by (rule scanstring_py_char) (simp add: next_not_low_quote)
  then show ?case by (simp add: append_char_def)
qed

lemma scanstring_basestring:
  "py_str s \<Longrightarrow> scanstring (tl (encode_basestring_ascii s) @ rest) = Inr (join_surrogates s, rest)"
  by (simp add: encode_basestring_ascii_def scanstring_joined)

subsection \<open>Integers\<close>

lemma decimal_digits: "d \<in> set (decimal n) \<Longrightarrow> is_digit d"
proof (induction n arbitrary: d rule: decimal.induct)
  case (1 n)
  show ?case
  proof (cases "n < 10")
    case True
    with 1(2) show ?thesis by (subst (asm) decimal.simps) (simp add: is_digit_def)
  next
    case False
    with 1(2) have "d \<in> set (decimal (n div 10)) \<or> d = 48 + n mod 10"
      by (subst (asm) decimal.simps) auto
    then show ?thesis
    proof
      assume "d \<in> set (decimal (n div 10))"
      with 1(1) False show ?thesis by simp
    next
      assume "d = 48 + n mod 10"
      moreover have "n mod 10 < 10" by simp
      ultimately show ?thesis unfolding is_digit_def by linarith
    qed
  qed
qed

lemma decimal_not_Nil: "decimal n \<noteq> []"
  by (subst decimal.simps) simp

lemma digits_value_snoc: "digits_value (ds @ [d]) = 10 * digits_value ds + (d - 48)"
  by (simp add: digits_value_def)

lemma digits_value_decimal: "digits_value (decimal n) = n"
proof (induction n rule: decimal.induct)
  case (1 n)
  show ?case
  proof (cases "n < 10")
    case True
    then show ?thesis by (subst decimal.simps) (simp add: digits_value_def)
  next
    case False
    with 1 have "digits_value (decimal (n div 10)) = n div 10" by simp
    with False show ?thesis by (subst decimal.simps) (simp add: digits_value_snoc)
  qed
qed

lemma hd_decimal: "0 < n \<Longrightarrow> hd (decimal n) \<noteq> 48"
proof (induction n rule: decimal.induct)
  case (1 n)
  show ?case
  proof (cases "n < 10")
    case True
    with 1(2) show ?thesis by (subst decimal.simps) simp
  next
    case False
    then have "0 < n div 10" by simp
    with 1 False have "hd (decimal (n div 10)) \<noteq> 48" by simp
    with False show ?thesis by (subst decimal.simps) (simp add: decimal_not_Nil)
  qed
qed

lemma decimal_zero: "decimal 0 = [48]"
  by (subst decimal.simps) simp

lemma takeWhile_digits:
  assumes "\<forall>d\<in>set ds. is_digit d" "rest = [] \<or> \<not> is_digit (hd rest)"
  shows "takeWhile is_digit (ds @ rest) = ds" "dropWhile is_digit (ds @ rest) = rest"
proof -
  have t: "takeWhile is_digit rest = []" "dropWhile is_digit rest = rest"
    using assms(2) by (cases rest; simp)+
  from assms(1) show "takeWhile is_digit (ds @ rest) = ds" by (simp add: takeWhile_append2 t)
  from assms(1) show "dropWhile is_digit (ds @ rest) = rest" by (simp add: dropWhile_append2 t)
qed

lemma not_float:
  assumes "delimited rest"
  shows "\<not> has_frac rest" "\<not> has_exp rest"
  using assms
  by (auto simp: delimited_def number_char_def has_frac_def has_exp_def split: list.splits)

lemma match_decimal:
  assumes "delimited rest"
  shows "match_number (decimal n @ rest) = Inr (JInt (int n), rest)"
proof -
  obtain d ds where dec: "decimal n = d # ds" using decimal_not_Nil by (cases "decimal n") auto
  have dig: "is_digit d" "\<forall>x\<in>set ds. is_digit x" using decimal_digits[of _ n] dec by auto
  have d45: "d \<noteq> 45" using dig(1) by (simp add: is_digit_def)
  have nd: "rest = [] \<or> \<not> is_digit (hd rest)" using assms by (auto simp: delimited_def number_char_def)
  show ?thesis
  proof (cases "n = 0")
    case True
    with dec have "d = 48" "ds = []" by (simp_all add: decimal_zero)
    with True assms show ?thesis
      by (simp add: match_number_def decimal_zero is_digit_def not_float digits_value_def)
  next
    case False
    then have "d \<noteq> 48" using hd_decimal[of n] dec by simp
    moreover have "digits_value (d # ds) = n" using digits_value_decimal[of n] dec by simp
    ultimately show ?thesis using d45 dig assms
      by (simp add: match_number_def dec takeWhile_digits[OF dig(2) nd] not_float)
  qed
qed

lemma match_intstr:
  assumes "delimited rest"
  shows "match_number (intstr i @ rest) = Inr (JInt i, rest)"
proof (cases "i < 0")
  case False
  then show ?thesis using match_decimal[OF assms, of "nat i"] by (simp add: intstr_def)
next
  case True
  let ?n = "nat (- i)"
  obtain d ds where dec: "decimal ?n = d # ds" using decimal_not_Nil by (cases "decimal ?n") auto
  have dig: "is_digit d" "\<forall>x\<in>set ds. is_digit x" using decimal_digits[of _ ?n] dec by auto
  have nd: "rest = [] \<or> \<not> is_digit (hd rest)" using assms by (auto simp: delimited_def number_char_def)
  have "0 < ?n" using True by simp
  then have "d \<noteq> 48" using hd_decimal[of ?n] dec by simp
  moreover have "digits_value (d # ds) = ?n" using digits_value_decimal[of ?n] dec by simp
  ultimately show ?thesis using True dig assms
    by (simp add: intstr_def match_number_def dec takeWhile_digits[OF dig(2) nd] not_float)
qed

lemma hd_intstr: "\<exists>c cs. intstr i = c # cs \<and> (is_digit c \<or> c = 45)"
proof (cases "i < 0")
  case True
  then show ?thesis by (simp add: intstr_def)
next
  case False
  obtain d ds where dec: "decimal (nat i) = d # ds" using decimal_not_Nil by (cases "decimal (nat i)") auto
  then have "is_digit d" using decimal_digits[of d "nat i"] by simp
  with dec False show ?thesis by (simp add: intstr_def)
qed

subsection \<open>Values\<close>

lemma skip_ws_append:
  assumes "\<forall>c\<in>set w. is_ws c" "s = [] \<or> \<not> is_ws (hd s)"
  shows "skip_ws (w @ s) = s"
proof -
  have "dropWhile is_ws s = s" using assms(2) by (cases s) auto
  with assms(1) show ?thesis by (simp add: skip_ws_def dropWhile_append2)
qed

lemma skip_ws_id: "s = [] \<or> \<not> is_ws (hd s) \<Longrightarrow> skip_ws s = s"
  using skip_ws_append[of "[]" s] by simp

lemma ws_newline_indent: "\<forall>c\<in>set (newline_indent ind l). is_ws c"
  by (auto simp: newline_indent_def is_ws_def)

lemma update_fresh: "k \<notin> fst ` set al \<Longrightarrow> AList.update k v al = al @ [(k, v)]"
  by (induction al) auto

lemma foldl_update_distinct:
  "distinct (map fst (acc @ kvs)) \<Longrightarrow>
   foldl (\<lambda>d kv. AList.update (fst kv) (snd kv) d) acc kvs = acc @ kvs"
proof (induction kvs arbitrary: acc)
  case Nil
  then show ?case by simp
next
  case (Cons kv kvs)
  from Cons.prems have "fst kv \<notin> fst ` set acc" by auto
  then have "AList.update (fst kv) (snd kv) acc = acc @ [kv]" by (simp add: update_fresh)
  moreover from Cons.prems have "distinct (map fst ((acc @ [kv]) @ kvs))" by simp
  ultimately show ?case using Cons.IH[of "acc @ [kv]"] by simp
qed

lemma dict_distinct: "distinct (map fst kvs) \<Longrightarrow> dict kvs = kvs"
  using foldl_update_distinct[of "[]" kvs] by (simp add: dict_def)

lemma scan_once_string:
  "py_str s \<Longrightarrow>
   scan_once (Suc n) (encode_basestring_ascii s @ rest) = Inr (JStr (join_surrogates s), rest)"
  by (simp add: encode_basestring_ascii_def scanstring_joined)

lemma scan_once_null: "scan_once (Suc n) (pystr_of ''null'' @ rest) = Inr (JNull, rest)"
  by (simp add: pystr_of_def)

lemma scan_once_true: "scan_once (Suc n) (pystr_of ''true'' @ rest) = Inr (JBool True, rest)"
  by (simp add: pystr_of_def)

lemma scan_once_false: "scan_once (Suc n) (pystr_of ''false'' @ rest) = Inr (JBool False, rest)"
  by (simp add: pystr_of_def)

lemma scan_once_int:
  assumes "delimited rest"
  shows "scan_once (Suc n) (intstr i @ rest) = Inr (JInt i, rest)"
proof -
  obtain c cs where i: "intstr i = c # cs" and c: "is_digit c \<or> c = 45"
    using hd_intstr by blast
  have m: "match_number (c # cs @ rest) = Inr (JInt i, rest)"
    using match_intstr[OF assms, of i] i by simp
  from c have "c \<noteq> 34" "c \<noteq> 123" "c \<noteq> 91" "c \<noteq> 110" "c \<noteq> 116" "c \<noteq> 102"
    by (auto simp: is_digit_def)
  then show ?thesis using m by (simp add: i pystr_of_def)
qed

lemma scan_once_empty_array: "scan_once (Suc n) (pystr_of ''[]'' @ rest) = Inr (JArr [], rest)"
  by (simp add: pystr_of_def skip_ws_def is_ws_def)

lemma scan_once_empty_object: "scan_once (Suc n) (pystr_of ''{}'' @ rest) = Inr (JObj [], rest)"
  by (simp add: pystr_of_def skip_ws_def is_ws_def)

lemma scan_once_array:
  assumes "\<forall>c\<in>set w. is_ws c" "s \<noteq> []" "\<not> is_ws (hd s)" "hd s \<noteq> 93"
  shows "scan_once (Suc n) (91 # w @ s) = JSONArray n [] s"
proof -
  obtain c s1 where s: "s = c # s1" using assms(2) by (cases s) auto
  have "skip_ws (w @ s) = s" using assms by (intro skip_ws_append) simp_all
  with s assms(4) show ?thesis by simp
qed

lemma scan_once_object:
  assumes "\<forall>c\<in>set w. is_ws c"
  shows "scan_once (Suc n) (123 # w @ 34 # s) = JSONObject n [] s"
proof -
  have "skip_ws (w @ 34 # s) = 34 # s" using assms by (intro skip_ws_append) (simp_all add: is_ws_def)
  then show ?thesis by simp
qed

lemma JSONArray_last:
  assumes "scan_once n s = Inr (v, w @ 93 # rest)" "\<forall>c\<in>set w. is_ws c"
  shows "JSONArray (Suc n) acc s = Inr (JArr (acc @ [v]), rest)"
proof -
  have "skip_ws (w @ 93 # rest) = 93 # rest"
    using assms(2) by (intro skip_ws_append) (simp_all add: is_ws_def)
  with assms(1) show ?thesis by simp
qed

lemma JSONArray_more:
  assumes "scan_once n s = Inr (v, 44 # w @ s')" "\<forall>c\<in>set w. is_ws c" "s' = [] \<or> \<not> is_ws (hd s')"
  shows "JSONArray (Suc n) acc s = JSONArray n (acc @ [v]) s'"
proof -
  have "skip_ws (44 # w @ s') = 44 # w @ s'" by (intro skip_ws_id) (simp add: is_ws_def)
  moreover have "skip_ws (w @ s') = s'" using assms(2,3) by (rule skip_ws_append)
  ultimately show ?thesis using assms(1) by simp
qed

lemma JSONObject_last:
  assumes "scanstring s = Inr (key, 58 # 32 # s2)" "s2 = [] \<or> \<not> is_ws (hd s2)"
    and "scan_once n s2 = Inr (v, w @ 125 # rest)" "\<forall>c\<in>set w. is_ws c"
  shows "JSONObject (Suc n) acc s = Inr (JObj (dict (acc @ [(key, v)])), rest)"
proof -
  have 1: "skip_ws (58 # 32 # s2) = 58 # 32 # s2" by (intro skip_ws_id) (simp add: is_ws_def)
  have 2: "skip_ws (32 # s2) = s2"
    using skip_ws_append[of "[32]" s2] assms(2) by (simp add: is_ws_def)
  have 3: "skip_ws (w @ 125 # rest) = 125 # rest"
    using assms(4) by (intro skip_ws_append) (simp_all add: is_ws_def)
  show ?thesis using assms(1,3) by (simp add: 1 2 3)
qed

lemma JSONObject_more:
  assumes "scanstring s = Inr (key, 58 # 32 # s2)" "s2 = [] \<or> \<not> is_ws (hd s2)"
    and "scan_once n s2 = Inr (v, 44 # w @ 34 # s5)" "\<forall>c\<in>set w. is_ws c"
  shows "JSONObject (Suc n) acc s = JSONObject n (acc @ [(key, v)]) s5"
proof -
  have 1: "skip_ws (58 # 32 # s2) = 58 # 32 # s2" by (intro skip_ws_id) (simp add: is_ws_def)
  have 2: "skip_ws (32 # s2) = s2"
    using skip_ws_append[of "[32]" s2] assms(2) by (simp add: is_ws_def)
  have 3: "skip_ws (44 # w @ 34 # s5) = 44 # w @ 34 # s5" by (intro skip_ws_id) (simp add: is_ws_def)
  have 4: "skip_ws (w @ 34 # s5) = 34 # s5"
    using assms(4) by (intro skip_ws_append) (simp_all add: is_ws_def)
  show ?thesis using assms(1,3) by (simp add: 1 2 3 4)
qed

lemma iterencode_first:
  "iterencode ind lvl v \<noteq> [] \<and> \<not> is_ws (hd (iterencode ind lvl v)) \<and> hd (iterencode ind lvl v) \<noteq> 93"
proof (cases v)
  case (JInt i)
  obtain c cs where "intstr i = c # cs" "is_digit c \<or> c = 45" using hd_intstr by blast
  with JInt show ?thesis by (auto simp: is_ws_def is_digit_def)
qed (auto simp: pystr_of_def is_ws_def encode_basestring_ascii_def)

lemma iterencode_list_first:
  "vs \<noteq> [] \<Longrightarrow> iterencode_list ind lvl vs \<noteq> [] \<and> \<not> is_ws (hd (iterencode_list ind lvl vs))
     \<and> hd (iterencode_list ind lvl vs) \<noteq> 93"
  using iterencode_first[of ind lvl "hd vs"] by (cases vs) auto

lemma iterencode_dict_first:
  "kvs \<noteq> [] \<Longrightarrow> iterencode_dict ind lvl kvs = 34 # tl (iterencode_dict ind lvl kvs)"
  by (cases kvs) (auto simp: encode_basestring_ascii_def)

lemma delimited_comma: "delimited (44 # s)"
  by (simp add: delimited_def number_char_def is_digit_def)

lemma delimited_newline: "delimited (newline_indent ind l @ s)"
  by (simp add: delimited_def number_char_def is_digit_def newline_indent_def)

lemma fst_norm_json_dict:
  "map fst (norm_json_dict dct) = map (\<lambda>kv. join_surrogates (fst kv)) dct"
  by (induction dct) auto

lemma scan_roundtrip:
  shows "\<forall>n rest. py_json v \<longrightarrow> length (iterencode ind lvl v) \<le> n \<longrightarrow> delimited rest \<longrightarrow>
           scan_once n (iterencode ind lvl v @ rest) = Inr (norm_json v, rest)"
    and "\<forall>n acc rest l. vs \<noteq> [] \<longrightarrow> py_json_list vs \<longrightarrow> length (iterencode_list ind lvl vs) < n \<longrightarrow>
           JSONArray n acc (iterencode_list ind lvl vs @ newline_indent ind l @ 93 # rest)
           = Inr (JArr (acc @ norm_json_list vs), rest)"
    and "\<forall>n acc rest l. kvs \<noteq> [] \<longrightarrow> py_json_dict kvs \<longrightarrow> length (iterencode_dict ind lvl kvs) < n \<longrightarrow>
           JSONObject n acc (tl (iterencode_dict ind lvl kvs) @ newline_indent ind l @ 125 # rest)
           = Inr (JObj (dict (acc @ norm_json_dict kvs)), rest)"
proof (induction ind lvl v and ind lvl vs and ind lvl kvs
    rule: iterencode_iterencode_list_iterencode_dict.induct)
  case (1 indent lvl)
  show ?case
  proof (intro allI impI)
    fix n rest assume "length (iterencode indent lvl JNull) \<le> n"
    then obtain m where "n = Suc m" by (cases n) (auto simp: pystr_of_def)
    then show "scan_once n (iterencode indent lvl JNull @ rest) = Inr (norm_json JNull, rest)"
      by (simp only: iterencode.simps norm_json.simps scan_once_null)
  qed
next
  case (2 indent lvl b)
  show ?case
  proof (intro allI impI)
    fix n rest assume "length (iterencode indent lvl (JBool b)) \<le> n"
    then obtain m where "n = Suc m" by (cases n) (auto simp: pystr_of_def split: if_splits)
    then show "scan_once n (iterencode indent lvl (JBool b) @ rest) = Inr (norm_json (JBool b), rest)"
      by (cases b) (simp_all only: iterencode.simps norm_json.simps scan_once_true scan_once_false if_True if_False)
  qed
next
  case (3 indent lvl i)
  show ?case
  proof (intro allI impI)
    fix n rest assume "length (iterencode indent lvl (JInt i)) \<le> n" and d: "delimited rest"
    moreover have "iterencode indent lvl (JInt i) \<noteq> []" using iterencode_first by blast
    ultimately obtain m where "n = Suc m" by (cases n) auto
    then show "scan_once n (iterencode indent lvl (JInt i) @ rest) = Inr (norm_json (JInt i), rest)"
      using d by (simp only: iterencode.simps norm_json.simps scan_once_int)
  qed
next
  case (4 indent lvl s)
  show ?case
  proof (intro allI impI)
    fix n rest assume "length (iterencode indent lvl (JStr s)) \<le> n" and w: "py_json (JStr s)"
    then obtain m where "n = Suc m" by (cases n) (auto simp: encode_basestring_ascii_def)
    then show "scan_once n (iterencode indent lvl (JStr s) @ rest) = Inr (norm_json (JStr s), rest)"
      using w by (simp add: scan_once_string del: scan_once.simps)
  qed
next
  case (5 indent lvl lst)
  show ?case
  proof (intro allI impI)
    fix n rest
    assume w: "py_json (JArr lst)" and len: "length (iterencode indent lvl (JArr lst)) \<le> n"
    show "scan_once n (iterencode indent lvl (JArr lst) @ rest) = Inr (norm_json (JArr lst), rest)"
    proof (cases "lst = []")
      case True
      with len obtain m where "n = Suc m" by (cases n) (auto simp: pystr_of_def)
      with True show ?thesis by (simp add: scan_once_empty_array del: scan_once.simps)
    next
      case False
      let ?items = "iterencode_list indent (lvl + 1) lst"
      let ?s = "?items @ newline_indent indent lvl @ 93 # rest"
      from len False obtain m where n: "n = Suc m" by (cases n) auto
      have f: "?items \<noteq> []" "\<not> is_ws (hd ?items)" "hd ?items \<noteq> 93"
        using iterencode_list_first[OF False] by blast+
      have e: "iterencode indent lvl (JArr lst) @ rest = 91 # newline_indent indent (lvl + 1) @ ?s"
        using False by simp
      have "length ?items < m" using len False n by (simp add: newline_indent_def)
      with 5 False w have "JSONArray m [] ?s = Inr (JArr ([] @ norm_json_list lst), rest)" by simp
      moreover have "scan_once (Suc m) (91 # newline_indent indent (lvl + 1) @ ?s) = JSONArray m [] ?s"
        using f by (intro scan_once_array ws_newline_indent) simp_all
      ultimately show ?thesis unfolding e n by simp
    qed
  qed
next
  case (6 indent lvl dct)
  show ?case
  proof (intro allI impI)
    fix n rest
    assume w: "py_json (JObj dct)" and len: "length (iterencode indent lvl (JObj dct)) \<le> n"
    show "scan_once n (iterencode indent lvl (JObj dct) @ rest) = Inr (norm_json (JObj dct), rest)"
    proof (cases "dct = []")
      case True
      with len obtain m where "n = Suc m" by (cases n) (auto simp: pystr_of_def)
      with True show ?thesis by (simp add: scan_once_empty_object del: scan_once.simps)
    next
      case False
      let ?items = "iterencode_dict indent (lvl + 1) dct"
      let ?s = "tl ?items @ newline_indent indent lvl @ 125 # rest"
      from len False obtain m where n: "n = Suc m" by (cases n) auto
      have f: "?items = 34 # tl ?items" using False by (rule iterencode_dict_first)
      have "iterencode indent lvl (JObj dct) @ rest
            = 123 # newline_indent indent (lvl + 1) @ ?items @ newline_indent indent lvl @ 125 # rest"
        using False by simp
      also have "\<dots> = 123 # newline_indent indent (lvl + 1) @ 34 # ?s" by (subst f) simp
      finally have e: "iterencode indent lvl (JObj dct) @ rest
            = 123 # newline_indent indent (lvl + 1) @ 34 # ?s" .
      have "length ?items < m" using len False n by (simp add: newline_indent_def)
      with 6 False w have "JSONObject m [] ?s = Inr (JObj (dict ([] @ norm_json_dict dct)), rest)" by simp
      moreover have "dict (norm_json_dict dct) = norm_json_dict dct"
        using w by (simp add: dict_distinct fst_norm_json_dict)
      moreover have "scan_once (Suc m) (123 # newline_indent indent (lvl + 1) @ 34 # ?s) = JSONObject m [] ?s"
        by (intro scan_once_object ws_newline_indent)
      ultimately show ?thesis unfolding e n by simp
    qed
  qed
next
  case (7 indent lvl)
  show ?case by simp
next
  case (8 indent lvl v vs)
  show ?case
  proof (intro allI impI)
    fix n acc rest l
    assume w: "py_json_list (v # vs)" and len: "length (iterencode_list indent lvl (v # vs)) < n"
    then obtain m where n: "n = Suc m" by (cases n) auto
    have wv: "py_json v" and wvs: "py_json_list vs" using w by simp_all
    show "JSONArray n acc (iterencode_list indent lvl (v # vs) @ newline_indent indent l @ 93 # rest)
          = Inr (JArr (acc @ norm_json_list (v # vs)), rest)"
    proof (cases "vs = []")
      case True
      have "length (iterencode indent lvl v) \<le> m" using len n True by simp
      with 8(1) wv have "scan_once m (iterencode indent lvl v @ newline_indent indent l @ 93 # rest)
          = Inr (norm_json v, newline_indent indent l @ 93 # rest)"
        using delimited_newline by blast
      then have "JSONArray (Suc m) acc (iterencode indent lvl v @ newline_indent indent l @ 93 # rest)
          = Inr (JArr (acc @ [norm_json v]), rest)"
        by (rule JSONArray_last) (rule ws_newline_indent)
      with True n show ?thesis by simp
    next
      case False
      let ?items = "iterencode_list indent lvl vs"
      let ?s' = "?items @ newline_indent indent l @ 93 # rest"
      have f: "?items \<noteq> []" "\<not> is_ws (hd ?items)"
        using iterencode_list_first[OF False] by blast+
      have e: "iterencode_list indent lvl (v # vs) @ newline_indent indent l @ 93 # rest
               = iterencode indent lvl v @ 44 # newline_indent indent lvl @ ?s'"
        using False by simp
      have "length (iterencode indent lvl v) \<le> m" using len n by simp
      with 8(1) wv have "scan_once m (iterencode indent lvl v @ 44 # newline_indent indent lvl @ ?s')
          = Inr (norm_json v, 44 # newline_indent indent lvl @ ?s')"
        using delimited_comma by blast
      then have "JSONArray (Suc m) acc (iterencode indent lvl v @ 44 # newline_indent indent lvl @ ?s')
          = JSONArray m (acc @ [norm_json v]) ?s'"
        using f by (intro JSONArray_more[OF _ ws_newline_indent]) simp_all
      moreover have "length ?items < m" using len n False by (simp add: newline_indent_def)
      with 8(2) False wvs have "JSONArray m (acc @ [norm_json v]) ?s' = Inr (JArr ((acc @ [norm_json v]) @ norm_json_list vs), rest)"
        by blast
      ultimately show ?thesis unfolding e n by simp
    qed
  qed
next
  case (9 indent lvl)
  show ?case by simp
next
  case (10 indent lvl k v kvs)
  show ?case
  proof (intro allI impI)
    fix n acc rest l
    assume w: "py_json_dict ((k, v) # kvs)"
      and len: "length (iterencode_dict indent lvl ((k, v) # kvs)) < n"
    then obtain m where n: "n = Suc m" by (cases n) auto
    have wk: "py_str k" and wv: "py_json v" and wkvs: "py_json_dict kvs" using w by simp_all
    have fv: "iterencode indent lvl v \<noteq> []" "\<not> is_ws (hd (iterencode indent lvl v))"
      using iterencode_first by blast+
    have lv: "length (iterencode indent lvl v) \<le> m" using len n by simp
    have key: "\<And>r. scanstring (tl (encode_basestring_ascii k) @ 58 # 32 # r)
                     = Inr (join_surrogates k, 58 # 32 # r)"
      using wk by (rule scanstring_basestring)
    have tl_enc: "\<And>r. tl (encode_basestring_ascii k @ r) = tl (encode_basestring_ascii k) @ r"
      by (simp add: encode_basestring_ascii_def)
    show "JSONObject n acc (tl (iterencode_dict indent lvl ((k, v) # kvs)) @ newline_indent indent l @ 125 # rest)
          = Inr (JObj (dict (acc @ norm_json_dict ((k, v) # kvs))), rest)"
    proof (cases "kvs = []")
      case True
      let ?r = "newline_indent indent l @ 125 # rest"
      have e: "tl (iterencode_dict indent lvl ((k, v) # kvs)) @ ?r
               = tl (encode_basestring_ascii k) @ 58 # 32 # (iterencode indent lvl v @ ?r)"
        using True by (simp add: tl_enc)
      from 10(1) wv lv have "scan_once m (iterencode indent lvl v @ ?r) = Inr (norm_json v, ?r)"
        using delimited_newline by blast
      then have "JSONObject (Suc m) acc (tl (encode_basestring_ascii k) @ 58 # 32 # (iterencode indent lvl v @ ?r))
          = Inr (JObj (dict (acc @ [(join_surrogates k, norm_json v)])), rest)"
        using fv by (intro JSONObject_last[OF key _ _ ws_newline_indent]) simp_all
      with True show ?thesis unfolding e n by simp
    next
      case False
      let ?items = "iterencode_dict indent lvl kvs"
      let ?s5 = "tl ?items @ newline_indent indent l @ 125 # rest"
      let ?r = "44 # newline_indent indent lvl @ 34 # ?s5"
      have f: "?items = 34 # tl ?items" using False by (rule iterencode_dict_first)
      have "tl (iterencode_dict indent lvl ((k, v) # kvs)) @ newline_indent indent l @ 125 # rest
            = tl (encode_basestring_ascii k) @ 58 # 32 # (iterencode indent lvl v
               @ 44 # newline_indent indent lvl @ ?items @ newline_indent indent l @ 125 # rest)"
        using False by (simp add: tl_enc)
      also have "\<dots> = tl (encode_basestring_ascii k) @ 58 # 32 # (iterencode indent lvl v @ ?r)"
        by (subst f) simp
      finally have e: "tl (iterencode_dict indent lvl ((k, v) # kvs)) @ newline_indent indent l @ 125 # rest
            = tl (encode_basestring_ascii k) @ 58 # 32 # (iterencode indent lvl v @ ?r)" .
      from 10(1) wv lv have "scan_once m (iterencode indent lvl v @ ?r) = Inr (norm_json v, ?r)"
        using delimited_comma by blast
      then have "JSONObject (Suc m) acc (tl (encode_basestring_ascii k) @ 58 # 32 # (iterencode indent lvl v @ ?r))
          = JSONObject m (acc @ [(join_surrogates k, norm_json v)]) ?s5"
        using fv by (intro JSONObject_more[OF key _ _ ws_newline_indent]) simp_all
      moreover have "length ?items < m" using len n False by (simp add: newline_indent_def)
      with 10(2) False wkvs have "JSONObject m (acc @ [(join_surrogates k, norm_json v)]) ?s5
          = Inr (JObj (dict ((acc @ [(join_surrogates k, norm_json v)]) @ norm_json_dict kvs)), rest)"
        by blast
      ultimately show ?thesis unfolding e n by simp
    qed
  qed
qed

lemma join_surrogates_scalar: "wf_str s \<Longrightarrow> join_surrogates s = s"
proof (induction s rule: join_surrogates.induct)
  case (1 h l s)
  then have h: "scalar_value h" and ls: "wf_str (l # s)" by (simp_all add: wf_str_def)
  from h have n: "\<not> (0xd800 \<le> h \<and> h \<le> 0xdbff \<and> 0xdc00 \<le> l \<and> l \<le> 0xdfff)"
    by (auto simp: scalar_value_def)
  with 1(2) ls have "join_surrogates (l # s) = l # s" by blast
  with n show ?case by simp
qed simp_all

lemma wf_str_py_str: "wf_str s \<Longrightarrow> py_str s"
  unfolding wf_str_def py_str_def list_all_iff by (auto simp: scalar_value_def py_char_def)

lemma escape_char_surrogate:
  assumes "0xd800 \<le> c" "c \<le> 0xdfff"
  shows "escape_char c = [92, 117] @ hex4 c"
  using assms by (simp add: escape_char_bmp)

lemma escape_char_joined:
  assumes "0xd800 \<le> h" "h \<le> 0xdbff" "0xdc00 \<le> l" "l \<le> 0xdfff"
  shows "escape_char (0x10000 + (push_bit 10 (h - 0xd800) OR (l - 0xdc00)))
         = escape_char h @ escape_char l"
proof -
  define c where "c = 0x10000 + (push_bit 10 (h - 0xd800) OR (l - 0xdc00))"
  have "push_bit 10 (h - 0xd800) OR (l - 0xdc00) = (h - 0xd800) * 2 ^ 10 + (l - 0xdc00)"
    using assms by (intro or_push_bit) simp
  then have v: "c - 0x10000 = (h - 0xd800) * 1024 + (l - 0xdc00)" by (simp add: c_def)
  have lo: "l - 0xdc00 < 1024" using assms by simp
  then have m: "(c - 0x10000) mod 1024 = l - 0xdc00" and d: "(c - 0x10000) div 1024 = h - 0xd800"
    unfolding v by simp_all
  have r: "0x10000 \<le> c" "c < 0x110000" using v assms lo by (simp_all add: c_def)
  have "escape_char c = [92, 117] @ hex4 (0xd800 + (h - 0xd800)) @ [92, 117] @ hex4 (0xdc00 + (l - 0xdc00))"
    using escape_char_astral[OF r] unfolding m d .
  also have "\<dots> = escape_char h @ escape_char l"
    using assms by (simp add: escape_char_surrogate)
  finally show ?thesis unfolding c_def .
qed

lemma escape_joined:
  "concat (map escape_char (join_surrogates s)) = concat (map escape_char s)"
proof (induction s rule: join_surrogates.induct)
  case (1 h l s)
  show ?case
  proof (cases "0xd800 \<le> h \<and> h \<le> 0xdbff \<and> 0xdc00 \<le> l \<and> l \<le> 0xdfff")
    case True
    with 1(1)[OF True] show ?thesis by (simp add: escape_char_joined)
  next
    case False
    have j: "join_surrogates (h # l # s) = h # join_surrogates (l # s)"
      by (subst join_surrogates.simps(1)) (simp only: False if_False)
    from 1(2)[OF False] show ?thesis by (simp add: j del: join_surrogates.simps)
  qed
qed simp_all

lemma encode_joined: "encode_basestring_ascii (join_surrogates s) = encode_basestring_ascii s"
  by (simp add: encode_basestring_ascii_def escape_joined)

lemma norm_json_list_Nil: "norm_json_list lst = [] \<longleftrightarrow> lst = []"
  by (cases lst) simp_all

lemma norm_json_dict_Nil: "norm_json_dict dct = [] \<longleftrightarrow> dct = []"
  by (cases dct) auto

lemma iterencode_norm:
  shows "iterencode ind lvl (norm_json v) = iterencode ind lvl v"
    and "iterencode_list ind lvl (norm_json_list vs) = iterencode_list ind lvl vs"
    and "iterencode_dict ind lvl (norm_json_dict kvs) = iterencode_dict ind lvl kvs"
proof (induction ind lvl v and ind lvl vs and ind lvl kvs
    rule: iterencode_iterencode_list_iterencode_dict.induct)
  case (5 indent lvl lst)
  then show ?case by (cases "lst = []") (simp_all add: norm_json_list_Nil)
next
  case (6 indent lvl dct)
  then show ?case by (cases "dct = []") (simp_all add: norm_json_dict_Nil)
next
  case (8 indent lvl v vs)
  then show ?case by (cases "vs = []") (simp_all add: norm_json_list_Nil)
next
  case (10 indent lvl k v kvs)
  then show ?case by (cases "kvs = []") (simp_all add: norm_json_dict_Nil encode_joined)
qed (simp_all add: encode_joined)

lemma json_loads_dumps:
  assumes "py_json v"
  shows "json_loads (json_dumps v ind) = Inr (norm_json v)"
proof -
  let ?s = "iterencode ind 0 v"
  have "?s \<noteq> []" "\<not> is_ws (hd ?s)" using iterencode_first by blast+
  then have s: "skip_ws ?s = ?s" by (intro skip_ws_id) simp
  have "delimited []" by (simp add: delimited_def)
  moreover have "length ?s \<le> Suc (2 * length ?s)" by simp
  ultimately have "scan_once (Suc (2 * length ?s)) (?s @ []) = Inr (norm_json v, [])"
    using assms scan_roundtrip(1)[of v ind 0] by blast
  moreover have "skip_ws [] = []" by (simp add: skip_ws_def)
  ultimately show ?thesis by (simp add: json_loads_def json_dumps_def s del: scan_once.simps)
qed

lemma json_dumps_stable:
  assumes "py_json v"
  shows "\<exists>parsed. json_loads (json_dumps v ind) = Inr parsed \<and> json_dumps parsed ind = json_dumps v ind"
  using json_loads_dumps[OF assms] by (simp add: json_dumps_def iterencode_norm)

lemma py_save_annotations_dict:
  "py_str (label a) \<Longrightarrow> py_str (text_fragment a) \<Longrightarrow> py_json (save_annotations_dict a)"
  by (simp add: save_annotations_dict_def pystr_of_def py_str_def py_char_def)

lemma py_annotations_list:
  "\<forall>a\<in>set anns. py_str (label a) \<and> py_str (text_fragment a) \<Longrightarrow>
   py_json_list (map save_annotations_dict anns)"
  by (induction anns) (simp_all add: py_save_annotations_dict)

lemma py_annotated_data:
  assumes "py_str text" "\<forall>a\<in>set anns. py_str (label a) \<and> py_str (text_fragment a)"
  shows "py_json (JObj [(pystr_of ''text'', JStr text),
                    (pystr_of ''annotations'', JArr (map save_annotations_dict anns))])"
proof -
  have "py_str (pystr_of ''text'')" "py_str (pystr_of ''annotations'')"
    by (simp_all add: pystr_of_def py_str_def py_char_def)
  moreover have "join_surrogates (pystr_of ''text'') \<noteq> join_surrogates (pystr_of ''annotations'')"
    by (simp add: pystr_of_def)
  ultimately show ?thesis using assms py_annotations_list[of anns] by simp
qed

lemma wf_str_unpaired: "wf_str s \<Longrightarrow> unpaired s"
  by (simp add: unpaired_def wf_str_py_str join_surrogates_scalar)

lemma norm_annotations_list:
  "\<forall>a\<in>set anns. unpaired (label a) \<and> unpaired (text_fragment a) \<Longrightarrow>
   norm_json_list (map save_annotations_dict anns) = map save_annotations_dict anns"
  by (induction anns) (simp_all add: save_annotations_dict_def pystr_of_def unpaired_def)

lemma json_loads_save_annotations:
  assumes "unpaired text" "\<forall>a\<in>set anns. unpaired (label a) \<and> unpaired (text_fragment a)"
  shows "json_loads (save_annotations text anns) =
         Inr (JObj [(pystr_of ''text'', JStr text),
                    (pystr_of ''annotations'', JArr (map save_annotations_dict anns))])"
proof -
  let ?v = "JObj [(pystr_of ''text'', JStr text),
                  (pystr_of ''annotations'', JArr (map save_annotations_dict anns))]"
  have "py_json ?v" using assms by (intro py_annotated_data) (auto simp: unpaired_def)
  then have "json_loads (json_dumps ?v 4) = Inr (norm_json ?v)" by (rule json_loads_dumps)
  moreover have "norm_json ?v = ?v"
    using assms norm_annotations_list[of anns] by (simp add: pystr_of_def unpaired_def)
  ultimately show ?thesis by (simp add: save_annotations_def)
qed

lemma add_annotation_fragment:
  assumes "\<forall>a\<in>set anns. text_fragment a = slice text (start_pos a) (end_pos a)"
  shows "\<forall>a\<in>set (fst (add_annotation text anns s e l)).
           text_fragment a = slice text (start_pos a) (end_pos a)"
  using assms by (auto simp: add_annotation_def)

subsection \<open>The recursion bound\<close>

text \<open>
  Every successful call of the parser consumes input, so the bound that \<open>json_loads\<close>
  supplies is never exhausted: \<open>json_loads\<close> returns a value or one of the two errors
  that stand for what Python does.
\<close>

lemma length_skip_ws: "length (skip_ws s) \<le> length s"
  by (simp add: skip_ws_def length_dropWhile_le)

lemma append_char_Inr:
  "append_char c r = Inr (str, rest) \<Longrightarrow> \<exists>str'. r = Inr (str', rest)"
  by (auto simp: append_char_def split: sum.splits)

lemma scanstring_shorter: "scanstring s = Inr (str, r) \<Longrightarrow> length r < length s"
proof (induction s arbitrary: str rule: scanstring.induct)
  case 1
  then show ?case by simp
next
  case (2 c s)
  show ?case
  proof (cases "c = 34")
    case True
    with 2(6) show ?thesis by simp
  next
    case c34: False
    show ?thesis
    proof (cases "c = 92")
      case False
      with c34 2(6) obtain str' where "\<not> c < 32" "scanstring s = Inr (str', r)"
        by (auto split: if_splits dest: append_char_Inr)
      with 2(1) c34 False show ?thesis by fastforce
    next
      case True
      with 2(6) obtain esc s1 where s: "s = esc # s1" by (cases s) auto
      show ?thesis
      proof (cases "esc = 117")
        case False
        with True s 2(6) obtain ch str' where "backslash esc = Some ch" "scanstring s1 = Inr (str', r)"
          by (auto split: option.splits dest: append_char_Inr)
        with 2(2)[OF c34 _ s False] True s show ?thesis by fastforce
      next
        case u: True
        with True s 2(6) obtain uni where d: "decode_uXXXX (take 4 s1) = Some uni"
          by (cases "decode_uXXXX (take 4 s1)") auto
        show ?thesis
        proof (cases "0xd800 \<le> uni \<and> uni \<le> 0xdbff \<and> take 2 (drop 4 s1) = [92, 117]")
          case False
          with True s u d 2(6) obtain str' where "scanstring (drop 4 s1) = Inr (str', r)"
            by (auto dest: append_char_Inr)
          with 2(5)[OF c34 _ s _ d False] True u have "length r < length (drop 4 s1)" by simp
          with s show ?thesis by simp
        next
          case pair: True
          with True s u d 2(6) obtain uni2 where d2: "decode_uXXXX (take 4 (drop 6 s1)) = Some uni2"
            by (cases "decode_uXXXX (take 4 (drop 6 s1))") auto
          show ?thesis
          proof (cases "0xdc00 \<le> uni2 \<and> uni2 \<le> 0xdfff")
            case low: True
            with True s u d d2 pair 2(6) obtain str' where "scanstring (drop 10 s1) = Inr (str', r)"
              by (auto dest: append_char_Inr)
            with 2(3)[OF c34 _ s _ d pair d2 low] True u have "length r < length (drop 10 s1)" by simp
            with s show ?thesis by simp
          next
            case False
            with True s u d d2 pair 2(6) obtain str' where "scanstring (drop 4 s1) = Inr (str', r)"
              by (auto dest: append_char_Inr)
            with 2(4)[OF c34 _ s _ d pair d2 False] True u have "length r < length (drop 4 s1)" by simp
            with s show ?thesis by simp
          qed
        qed
      qed
    qed
  qed
qed

lemma match_number_shorter: "match_number s = Inr (v, r) \<Longrightarrow> length r < length s"
proof -
  assume a: "match_number s = Inr (v, r)"
  define s1 where "s1 = (if s \<noteq> [] \<and> hd s = 45 then tl s else s)"
  have l: "length s1 \<le> length s" by (simp add: s1_def)
  from a obtain d r0 where s1: "s1 = d # r0"
    by (cases s1) (auto simp: match_number_def s1_def Let_def split: if_splits)
  from a s1 have "r = (if d = 48 then r0 else dropWhile is_digit r0)"
    by (auto simp: match_number_def s1_def Let_def split: if_splits)
  then have "length r \<le> length r0" by (simp add: length_dropWhile_le)
  with l s1 show ?thesis by simp
qed

lemma skip_ws_Cons_shorter: "skip_ws s = c # t \<Longrightarrow> length t < length s"
  using length_skip_ws[of s] by simp

lemma scan_shorter:
  "(\<forall>s v r. scan_once n s = Inr (v, r) \<longrightarrow> length r < length s)
   \<and> (\<forall>acc s v r. JSONArray n acc s = Inr (v, r) \<longrightarrow> length r < length s)
   \<and> (\<forall>acc s v r. JSONObject n acc s = Inr (v, r) \<longrightarrow> length r < length s)"
proof (induction n)
  case 0
  then show ?case by simp
next
  case (Suc n)
  then have IH1: "\<And>s v r. scan_once n s = Inr (v, r) \<Longrightarrow> length r < length s"
    and IH2: "\<And>acc s v r. JSONArray n acc s = Inr (v, r) \<Longrightarrow> length r < length s"
    and IH3: "\<And>acc s v r. JSONObject n acc s = Inr (v, r) \<Longrightarrow> length r < length s"
    by blast+
  have 1: "length r < length s" if a: "scan_once (Suc n) s = Inr (v, r)" for s v r
  proof (cases s)
    case Nil
    with a show ?thesis by simp
  next
    case (Cons c t)
    consider (str) "c = 34" | (obj) "c = 123" | (arr) "c = 91"
      | (other) "c \<noteq> 34" "c \<noteq> 123" "c \<noteq> 91" by blast
    then show ?thesis
    proof cases
      case str
      with a Cons obtain x where "scanstring t = Inr (x, r)"
        by (auto split: sum.splits)
      then show ?thesis using Cons by (auto dest: scanstring_shorter)
    next
      case obj
      with a Cons obtain d s1 where w: "skip_ws t = d # s1" by (cases "skip_ws t") auto
      with a Cons obj have "r = s1 \<or> JSONObject n [] s1 = Inr (v, r)"
        by (auto split: if_splits)
      then have "length r \<le> length s1" using IH3 by fastforce
      with skip_ws_Cons_shorter[OF w] Cons show ?thesis by simp
    next
      case arr
      with a Cons obtain d s1 where w: "skip_ws t = d # s1" by (cases "skip_ws t") auto
      with a Cons arr have "r = s1 \<or> JSONArray n [] (d # s1) = Inr (v, r)"
        by (auto split: if_splits)
      then have "length r \<le> length (d # s1)" using IH2 by fastforce
      with length_skip_ws[of t] w Cons show ?thesis by simp
    next
      case other
      with a Cons have "r = drop 3 t \<or> r = drop 4 t \<or> match_number (c # t) = Inr (v, r)"
        by (auto split: if_splits sum.splits json_error.splits)
      then show ?thesis using Cons by (auto dest: match_number_shorter)
    qed
  qed
  have 2: "length r < length s" if a: "JSONArray (Suc n) acc s = Inr (v, r)" for acc s v r
  proof -
    from a obtain x s1 where v: "scan_once n s = Inr (x, s1)"
      by (cases "scan_once n s") auto
    then have l1: "length s1 < length s" by (rule IH1)
    from a v obtain c s2 where w: "skip_ws s1 = c # s2" by (cases "skip_ws s1") auto
    with a v have "r = s2 \<or> JSONArray n (acc @ [x]) (skip_ws s2) = Inr (v, r)"
      by (auto split: if_splits)
    then have "length r \<le> length s2" using IH2 length_skip_ws[of s2] by fastforce
    with skip_ws_Cons_shorter[OF w] l1 show ?thesis by simp
  qed
  have 3: "length r < length s" if a: "JSONObject (Suc n) acc s = Inr (v, r)" for acc s v r
  proof -
    from a obtain key s1 where k: "scanstring s = Inr (key, s1)"
      by (cases "scanstring s") auto
    then have l1: "length s1 < length s" by (rule scanstring_shorter)
    from a k obtain c s2 where w: "skip_ws s1 = c # s2" by (cases "skip_ws s1") auto
    from a k w obtain x s3 where v: "scan_once n (skip_ws s2) = Inr (x, s3)"
      by (cases "scan_once n (skip_ws s2)") (auto split: if_splits)
    then have l3: "length s3 < length (skip_ws s2)" by (rule IH1)
    from a k w v obtain d s4 where w2: "skip_ws s3 = d # s4"
      by (cases "skip_ws s3") (auto split: if_splits)
    have "length r \<le> length s4"
    proof (cases "d = 125")
      case True
      with a k w v w2 show ?thesis by (auto split: if_splits)
    next
      case False
      with a k w v w2 obtain e s5 where w3: "skip_ws s4 = e # s5"
        by (cases "skip_ws s4") (auto split: if_splits)
      with a k w v w2 False have "JSONObject n (acc @ [(key, x)]) s5 = Inr (v, r)"
        by (auto split: if_splits)
      then have "length r < length s5" by (rule IH3)
      with skip_ws_Cons_shorter[OF w3] show ?thesis by simp
    qed
    with skip_ws_Cons_shorter[OF w2] l3 length_skip_ws[of s2] skip_ws_Cons_shorter[OF w] l1
    show ?thesis by simp
  qed
  from 1 2 3 show ?case by blast
qed

lemma append_char_error: "append_char c r = Inl e \<Longrightarrow> r = Inl e"
  by (auto simp: append_char_def split: sum.splits)

lemma scanstring_error: "scanstring s = Inl e \<Longrightarrow> e = JSONDecodeError"
proof (induction s rule: scanstring.induct)
  case 1
  then show ?case by simp
next
  case (2 c s)
  from 2(6) show ?case
    by (auto split: if_splits list.splits option.splits
        dest!: append_char_error intro: 2(1) 2(2) 2(3) 2(4) 2(5))
qed

lemma match_number_error: "match_number s \<noteq> Inl DepthExceeded"
  by (auto simp: match_number_def Let_def split: list.splits if_splits)

lemma scan_enough_fuel:
  "(\<forall>s. 2 * length s < n \<longrightarrow> scan_once n s \<noteq> Inl DepthExceeded)
   \<and> (\<forall>acc s. 2 * length s + 1 < n \<longrightarrow> JSONArray n acc s \<noteq> Inl DepthExceeded)
   \<and> (\<forall>acc s. 2 * length s + 1 < n \<longrightarrow> JSONObject n acc s \<noteq> Inl DepthExceeded)"
proof (induction n)
  case 0
  then show ?case by simp
next
  case (Suc n)
  then have IH1: "\<And>s. 2 * length s < n \<Longrightarrow> scan_once n s \<noteq> Inl DepthExceeded"
    and IH2: "\<And>acc s. 2 * length s + 1 < n \<Longrightarrow> JSONArray n acc s \<noteq> Inl DepthExceeded"
    and IH3: "\<And>acc s. 2 * length s + 1 < n \<Longrightarrow> JSONObject n acc s \<noteq> Inl DepthExceeded"
    by blast+
  have 1: "scan_once (Suc n) s \<noteq> Inl DepthExceeded" if l: "2 * length s < Suc n" for s
  proof (cases s)
    case Nil
    then show ?thesis by simp
  next
    case (Cons c t)
    consider (str) "c = 34" | (obj) "c = 123" | (arr) "c = 91"
      | (other) "c \<noteq> 34" "c \<noteq> 123" "c \<noteq> 91" by blast
    then show ?thesis
    proof cases
      case str
      with Cons show ?thesis by (auto split: sum.splits dest: scanstring_error)
    next
      case obj
      show ?thesis
      proof (cases "skip_ws t")
        case Nil
        with Cons obj show ?thesis by simp
      next
        case (Cons d s1)
        from skip_ws_Cons_shorter[OF Cons] l \<open>s = c # t\<close> have "2 * length s1 + 1 < n" by simp
        then have "JSONObject n [] s1 \<noteq> Inl DepthExceeded" by (rule IH3)
        with Cons obj \<open>s = c # t\<close> show ?thesis by simp
      qed
    next
      case arr
      show ?thesis
      proof (cases "skip_ws t")
        case Nil
        with Cons arr show ?thesis by simp
      next
        case (Cons d s1)
        from length_skip_ws[of t] Cons l \<open>s = c # t\<close> have "2 * length (d # s1) + 1 < n" by simp
        then have "JSONArray n [] (d # s1) \<noteq> Inl DepthExceeded" by (rule IH2)
        with Cons arr \<open>s = c # t\<close> show ?thesis by simp
      qed
    next
      case other
      with Cons match_number_error[of "c # t"] show ?thesis
        by (auto split: sum.splits json_error.splits)
    qed
  qed
  have 2: "JSONArray (Suc n) acc s \<noteq> Inl DepthExceeded" if l: "2 * length s + 1 < Suc n" for acc s
  proof (cases "scan_once n s")
    case (Inl e)
    moreover from l have "scan_once n s \<noteq> Inl DepthExceeded" by (intro IH1) simp
    ultimately show ?thesis by auto
  next
    case (Inr p)
    obtain x s1 where p: "p = (x, s1)" by (cases p)
    with Inr scan_shorter[of n] have l1: "length s1 < length s" by blast
    show ?thesis
    proof (cases "skip_ws s1")
      case Nil
      with Inr p show ?thesis by simp
    next
      case (Cons c s2)
      from skip_ws_Cons_shorter[OF Cons] l1 l length_skip_ws[of s2]
      have "2 * length (skip_ws s2) + 1 < n" by simp
      then have "JSONArray n (acc @ [x]) (skip_ws s2) \<noteq> Inl DepthExceeded" by (rule IH2)
      with Inr p Cons show ?thesis by simp
    qed
  qed
  have 3: "JSONObject (Suc n) acc s \<noteq> Inl DepthExceeded" if l: "2 * length s + 1 < Suc n" for acc s
  proof (cases "scanstring s")
    case (Inl e)
    then show ?thesis by (auto dest: scanstring_error)
  next
    case (Inr p)
    obtain key s1 where p: "p = (key, s1)" by (cases p)
    with Inr have l1: "length s1 < length s" by (auto dest: scanstring_shorter)
    show ?thesis
    proof (cases "skip_ws s1")
      case Nil
      with Inr p show ?thesis by simp
    next
      case (Cons c s2)
      note w = Cons
      from skip_ws_Cons_shorter[OF w] l1 l length_skip_ws[of s2]
      have l2: "length (skip_ws s2) + 2 \<le> length s" by simp
      show ?thesis
      proof (cases "scan_once n (skip_ws s2)")
        case (Inl e)
        moreover from l2 l have "scan_once n (skip_ws s2) \<noteq> Inl DepthExceeded" by (intro IH1) simp
        ultimately show ?thesis using Inr p w by auto
      next
        case inner: (Inr q)
        obtain x s3 where q: "q = (x, s3)" by (cases q)
        with inner scan_shorter[of n] have l3: "length s3 < length (skip_ws s2)" by blast
        show ?thesis
        proof (cases "skip_ws s3")
          case Nil
          with Inr p w inner q show ?thesis by simp
        next
          case (Cons d s4)
          note w2 = Cons
          show ?thesis
          proof (cases "skip_ws s4")
            case Nil
            with Inr p w inner q w2 show ?thesis by simp
          next
            case (Cons e s5)
            from skip_ws_Cons_shorter[OF Cons] skip_ws_Cons_shorter[OF w2] l3 l2 l
            have "2 * length s5 + 1 < n" by simp
            then have "JSONObject n (acc @ [(key, x)]) s5 \<noteq> Inl DepthExceeded" by (rule IH3)
            with Inr p w inner q w2 Cons show ?thesis by simp
          qed
        qed
      qed
    qed
  qed
  from 1 2 3 show ?case by blast
qed

lemma json_loads_total: "json_loads s \<noteq> Inl DepthExceeded"
proof -
  have "2 * length (skip_ws s) < Suc (2 * length s)" using length_skip_ws[of s] by simp
  then have "scan_once (Suc (2 * length s)) (skip_ws s) \<noteq> Inl DepthExceeded"
    using scan_enough_fuel[of "Suc (2 * length s)"] by blast
  then show ?thesis by (auto simp: json_loads_def split: sum.splits prod.splits)
qed

subsection \<open>An example\<close>

text \<open>The output for a document with one annotation, in the layout of Python's encoder.\<close>

lemma replicate_numeral: "replicate (numeral k) x = x # replicate (pred_numeral k) x"
  by (simp add: numeral_eq_Suc)

lemmas scan_numeral =
  scan_once.simps(2,3) [of "pred_numeral k", folded numeral_eq_Suc]
  JSONArray.simps(2) [of "pred_numeral k", folded numeral_eq_Suc]
  JSONObject.simps(2) [of "pred_numeral k", folded numeral_eq_Suc]
  for k

lemma save_annotations_example:
  \<open>save_annotations (pystr_of ''Hi!'')
     [\<lparr>start_pos = 0, end_pos = 2, label = pystr_of ''GREETING'', text_fragment = pystr_of ''Hi''\<rparr>]
   = pystr_of ''{\<newline>    "text": "Hi!",\<newline>    "annotations": [\<newline>        {\<newline>            "start_pos": 0,\<newline>            "end_pos": 2,\<newline>            "label": "GREETING",\<newline>            "text_fragment": "Hi"\<newline>        }\<newline>    ]\<newline>}''\<close>
  by (simp add: save_annotations_def save_annotations_dict_def json_dumps_def pystr_of_def
      encode_basestring_ascii_def escape_char_def intstr_def decimal.simps newline_indent_def
      replicate_numeral)

text \<open>
  Claim C5, as the code has it. For a text, labels and fragments in which no high
  surrogate is directly followed by a low surrogate, parsing the output of
  \<open>save_annotations\<close> gives an object whose \<open>text\<close> is the input text and whose
  \<open>annotations\<close> array has one entry for each annotation of the input, in the same order,
  each with exactly the fields \<open>start_pos\<close>, \<open>end_pos\<close>, \<open>label\<close> and \<open>text_fragment\<close>
  and their stored values. \<open>save_annotations\<close> writes the stored \<open>text_fragment\<close> and
  does not compute it again: where every stored \<open>text_fragment\<close> is
  \<open>text[start_pos:end_pos]\<close>, so is every parsed one, and the add operation on this text
  keeps it so.
\<close>

theorem save_annotations_roundtrip:
  assumes "unpaired text" and "\<forall>a\<in>set anns. unpaired (label a) \<and> unpaired (text_fragment a)"
  shows "json_loads (save_annotations text anns) =
           Inr (JObj [(pystr_of ''text'', JStr text),
                      (pystr_of ''annotations'',
                       JArr (map (\<lambda>a. JObj [(pystr_of ''start_pos'', JInt (start_pos a)),
                                             (pystr_of ''end_pos'', JInt (end_pos a)),
                                             (pystr_of ''label'', JStr (label a)),
                                             (pystr_of ''text_fragment'', JStr (text_fragment a))])
                              anns))])
         \<and> ((\<forall>a\<in>set anns. text_fragment a = slice text (start_pos a) (end_pos a)) \<longrightarrow>
              json_loads (save_annotations text anns) =
                Inr (JObj [(pystr_of ''text'', JStr text),
                           (pystr_of ''annotations'',
                            JArr (map (\<lambda>a. JObj [(pystr_of ''start_pos'', JInt (start_pos a)),
                                                  (pystr_of ''end_pos'', JInt (end_pos a)),
                                                  (pystr_of ''label'', JStr (label a)),
                                                  (pystr_of ''text_fragment'',
                                                   JStr (slice text (start_pos a) (end_pos a)))])
                                   anns))])
              \<and> (\<forall>a\<in>set (fst (add_annotation text anns s e l)).
                    text_fragment a = slice text (start_pos a) (end_pos a)))"
proof -
  have m: "map save_annotations_dict anns =
        map (\<lambda>a. JObj [(pystr_of ''start_pos'', JInt (start_pos a)),
                        (pystr_of ''end_pos'', JInt (end_pos a)),
                        (pystr_of ''label'', JStr (label a)),
                        (pystr_of ''text_fragment'', JStr (text_fragment a))]) anns"
    by (simp add: save_annotations_dict_def)
  have p1: "json_loads (save_annotations text anns) =
           Inr (JObj [(pystr_of ''text'', JStr text),
                      (pystr_of ''annotations'',
                       JArr (map (\<lambda>a. JObj [(pystr_of ''start_pos'', JInt (start_pos a)),
                                             (pystr_of ''end_pos'', JInt (end_pos a)),
                                             (pystr_of ''label'', JStr (label a)),
                                             (pystr_of ''text_fragment'', JStr (text_fragment a))])
                              anns))])"
    using json_loads_save_annotations[OF assms] by (simp only: m)
  show ?thesis
  proof (intro conjI impI)
    show "json_loads (save_annotations text anns) =
           Inr (JObj [(pystr_of ''text'', JStr text),
                      (pystr_of ''annotations'',
                       JArr (map (\<lambda>a. JObj [(pystr_of ''start_pos'', JInt (start_pos a)),
                                             (pystr_of ''end_pos'', JInt (end_pos a)),
                                             (pystr_of ''label'', JStr (label a)),
                                             (pystr_of ''text_fragment'', JStr (text_fragment a))])
                              anns))])" by (rule p1)
  next
    assume f: "\<forall>a\<in>set anns. text_fragment a = slice text (start_pos a) (end_pos a)"
    then have "map (\<lambda>a. JObj [(pystr_of ''start_pos'', JInt (start_pos a)),
                        (pystr_of ''end_pos'', JInt (end_pos a)),
                        (pystr_of ''label'', JStr (label a)),
                        (pystr_of ''text_fragment'', JStr (text_fragment a))]) anns
        = map (\<lambda>a. JObj [(pystr_of ''start_pos'', JInt (start_pos a)),
                        (pystr_of ''end_pos'', JInt (end_pos a)),
                        (pystr_of ''label'', JStr (label a)),
                        (pystr_of ''text_fragment'', JStr (slice text (start_pos a) (end_pos a)))]) anns"
      by simp
    with p1 show "json_loads (save_annotations text anns) =
                Inr (JObj [(pystr_of ''text'', JStr text),
                           (pystr_of ''annotations'',
                            JArr (map (\<lambda>a. JObj [(pystr_of ''start_pos'', JInt (start_pos a)),
                                                  (pystr_of ''end_pos'', JInt (end_pos a)),
                                                  (pystr_of ''label'', JStr (label a)),
                                                  (pystr_of ''text_fragment'',
                                                   JStr (slice text (start_pos a) (end_pos a)))])
                                   anns))])" by simp
  next
    assume f: "\<forall>a\<in>set anns. text_fragment a = slice text (start_pos a) (end_pos a)"
    then show "\<forall>a\<in>set (fst (add_annotation text anns s e l)).
                    text_fragment a = slice text (start_pos a) (end_pos a)"
      by (rule add_annotation_fragment)
  qed
qed

theorem save_annotations_roundtrip_witness:
  "unpaired (pystr_of ''Alice went to Paris.'')
   \<and> unpaired [0xDE00, 0xD83D]
   \<and> json_loads (save_annotations (pystr_of ''Alice went to Paris.'')
        [\<lparr>start_pos = 0, end_pos = 5, label = [0xDE00, 0xD83D], text_fragment = pystr_of ''Alice''\<rparr>,
         \<lparr>start_pos = 14, end_pos = 19, label = pystr_of ''LOCATION'', text_fragment = pystr_of ''Paris''\<rparr>])
     = Inr (JObj [(pystr_of ''text'', JStr (pystr_of ''Alice went to Paris.'')),
                  (pystr_of ''annotations'',
                   JArr [JObj [(pystr_of ''start_pos'', JInt 0), (pystr_of ''end_pos'', JInt 5),
                               (pystr_of ''label'', JStr [0xDE00, 0xD83D]),
                               (pystr_of ''text_fragment'',
                                JStr (slice (pystr_of ''Alice went to Paris.'') 0 5))],
                         JObj [(pystr_of ''start_pos'', JInt 14), (pystr_of ''end_pos'', JInt 19),
                               (pystr_of ''label'', JStr (pystr_of ''LOCATION'')),
                               (pystr_of ''text_fragment'',
                                JStr (slice (pystr_of ''Alice went to Paris.'') 14 19))]])])
   \<and> slice (pystr_of ''Alice went to Paris.'') 0 5 = pystr_of ''Alice''
   \<and> slice (pystr_of ''Alice went to Paris.'') 14 19 = pystr_of ''Paris''"
proof -
  let ?t = "pystr_of ''Alice went to Paris.''"
  let ?a = "\<lparr>start_pos = 0, end_pos = 5, label = [0xDE00, 0xD83D], text_fragment = pystr_of ''Alice''\<rparr>"
  let ?b = "\<lparr>start_pos = 14, end_pos = 19, label = pystr_of ''LOCATION'', text_fragment = pystr_of ''Paris''\<rparr>"
  have t: "unpaired ?t" by (simp add: unpaired_def pystr_of_def py_str_def py_char_def)
  have l: "unpaired [0xDE00, 0xD83D]" by (simp add: unpaired_def py_str_def py_char_def)
  have w: "\<forall>a\<in>set [?a, ?b]. unpaired (label a) \<and> unpaired (text_fragment a)"
    by (simp add: unpaired_def pystr_of_def py_str_def py_char_def)
  have s: "slice ?t 0 5 = pystr_of ''Alice''" "slice ?t 14 19 = pystr_of ''Paris''"
    by (simp_all add: pystr_of_def slice_def slice_index_def)
  then have f: "\<forall>a\<in>set [?a, ?b]. text_fragment a = slice ?t (start_pos a) (end_pos a)"
    by simp
  have "json_loads (save_annotations ?t [?a, ?b])
     = Inr (JObj [(pystr_of ''text'', JStr ?t),
                  (pystr_of ''annotations'',
                   JArr [JObj [(pystr_of ''start_pos'', JInt 0), (pystr_of ''end_pos'', JInt 5),
                               (pystr_of ''label'', JStr [0xDE00, 0xD83D]),
                               (pystr_of ''text_fragment'', JStr (slice ?t 0 5))],
                         JObj [(pystr_of ''start_pos'', JInt 14), (pystr_of ''end_pos'', JInt 19),
                               (pystr_of ''label'', JStr (pystr_of ''LOCATION'')),
                               (pystr_of ''text_fragment'', JStr (slice ?t 14 19))]])])"
    using save_annotations_roundtrip [OF t w, THEN conjunct2, THEN mp, OF f, THEN conjunct1]
    by simp
  with t l s show ?thesis by (intro conjI)
qed

text \<open>
  Claim C5 as stated fails in two ways. The text of the two code points \<open>U+D83D\<close> and
  \<open>U+DE00\<close> is read back as the single code point \<open>U+1F600\<close>. And the list that the add
  operation builds on the text \<open>Alice\<close>, saved with the text \<open>Bobby went\<close>, keeps the
  fragment \<open>Alice\<close>, while \<open>text[0:5]\<close> is \<open>Bobby\<close>.
\<close>

theorem save_annotations_roundtrip_counterexample:
  "json_loads (save_annotations [0xD83D, 0xDE00] [])
     = Inr (JObj [(pystr_of ''text'', JStr [0x1F600]), (pystr_of ''annotations'', JArr [])])
   \<and> [0x1F600] \<noteq> [0xD83D, 0xDE00 :: nat]
   \<and> fst (add_annotation (pystr_of ''Alice'') [] 0 5 (pystr_of ''PERSON''))
     = [\<lparr>start_pos = 0, end_pos = 5, label = pystr_of ''PERSON'', text_fragment = pystr_of ''Alice''\<rparr>]
   \<and> json_loads (save_annotations (pystr_of ''Bobby went'')
        [\<lparr>start_pos = 0, end_pos = 5, label = pystr_of ''PERSON'', text_fragment = pystr_of ''Alice''\<rparr>])
     = Inr (JObj [(pystr_of ''text'', JStr (pystr_of ''Bobby went'')),
                  (pystr_of ''annotations'',
                   JArr [JObj [(pystr_of ''start_pos'', JInt 0), (pystr_of ''end_pos'', JInt 5),
                               (pystr_of ''label'', JStr (pystr_of ''PERSON'')),
                               (pystr_of ''text_fragment'', JStr (pystr_of ''Alice''))]])])
   \<and> slice (pystr_of ''Bobby went'') 0 5 = pystr_of ''Bobby''
   \<and> pystr_of ''Alice'' \<noteq> pystr_of ''Bobby''"
proof -
  let ?v = "JObj [(pystr_of ''text'', JStr [0xD83D, 0xDE00]), (pystr_of ''annotations'', JArr [])]"
  have "py_json ?v" by (simp add: pystr_of_def py_str_def py_char_def)
  then have "json_loads (json_dumps ?v 4) = Inr (norm_json ?v)" by (rule json_loads_dumps)
  then have c1: "json_loads (save_annotations [0xD83D, 0xDE00] [])
     = Inr (JObj [(pystr_of ''text'', JStr [0x1F600]), (pystr_of ''annotations'', JArr [])])"
    by (simp add: save_annotations_def pystr_of_def)
  let ?a = "\<lparr>start_pos = 0, end_pos = 5, label = pystr_of ''PERSON'', text_fragment = pystr_of ''Alice''\<rparr>"
  have u: "unpaired (pystr_of ''Bobby went'')"
    "\<forall>a\<in>set [?a]. unpaired (label a) \<and> unpaired (text_fragment a)"
    by (simp_all add: unpaired_def pystr_of_def py_str_def py_char_def)
  have c2: "json_loads (save_annotations (pystr_of ''Bobby went'') [?a])
     = Inr (JObj [(pystr_of ''text'', JStr (pystr_of ''Bobby went'')),
                  (pystr_of ''annotations'',
                   JArr [JObj [(pystr_of ''start_pos'', JInt 0), (pystr_of ''end_pos'', JInt 5),
                               (pystr_of ''label'', JStr (pystr_of ''PERSON'')),
                               (pystr_of ''text_fragment'', JStr (pystr_of ''Alice''))]])])"
    using json_loads_save_annotations[OF u] by (simp add: save_annotations_dict_def)
  have c3: "fst (add_annotation (pystr_of ''Alice'') [] 0 5 (pystr_of ''PERSON'')) = [?a]"
    by (simp add: add_annotation_def pystr_of_def slice_def slice_index_def)
  have c4: "slice (pystr_of ''Bobby went'') 0 5 = pystr_of ''Bobby''"
    by (simp add: pystr_of_def slice_def slice_index_def)
  have c5: "pystr_of ''Alice'' \<noteq> pystr_of ''Bobby''" "[0x1F600] \<noteq> [0xD83D, 0xDE00 :: nat]"
    by (simp_all add: pystr_of_def)
  from c1 c2 c3 c4 c5 show ?thesis by (intro conjI)
qed

text \<open>
  Claim C6. Serialization is round-trip stable: for every text and every list of
  annotations, the output of \<open>save_annotations\<close> parses, and serializing the parsed value
  again with the same indentation gives the same string. This holds for all Python
  strings, surrogates included.
\<close>

theorem save_annotations_stable:
  assumes "py_str text" and "\<forall>a\<in>set anns. py_str (label a) \<and> py_str (text_fragment a)"
  shows "\<exists>parsed. json_loads (save_annotations text anns) = Inr parsed
           \<and> json_dumps parsed 4 = save_annotations text anns"
  unfolding save_annotations_def Let_def
  using py_annotated_data[OF assms] by (rule json_dumps_stable)

theorem save_annotations_stable_witness:
  "py_str [233, 0xD83D, 0xDE00, 0x1F600, 10, 34]
   \<and> (\<exists>parsed. json_loads (save_annotations [233, 0xD83D, 0xDE00, 0x1F600, 10, 34]
          [\<lparr>start_pos = 0, end_pos = 2, label = [92, 0x4E2D], text_fragment = [233, 0xD83D]\<rparr>])
        = Inr parsed
        \<and> json_dumps parsed 4 = save_annotations [233, 0xD83D, 0xDE00, 0x1F600, 10, 34]
          [\<lparr>start_pos = 0, end_pos = 2, label = [92, 0x4E2D], text_fragment = [233, 0xD83D]\<rparr>])"
proof -
  have t: "py_str [233, 0xD83D, 0xDE00, 0x1F600, 10, 34]" by (simp add: py_str_def py_char_def)
  have w: "\<forall>a\<in>set [\<lparr>start_pos = 0, end_pos = 2, label = [92, 0x4E2D], text_fragment = [233, 0xD83D]\<rparr>].
             py_str (label a) \<and> py_str (text_fragment a)"
    by (simp add: py_str_def py_char_def)
  from t save_annotations_stable [OF t w] show ?thesis by blast
qed

text \<open>
  For the parsed value to be the original one, the strings must not contain a high
  surrogate followed by a low surrogate: the two code points are written as two escapes
  and read back as the single code point of the pair.
\<close>

lemma surrogates_not_preserved:
  "json_loads (json_dumps (JStr [0xD83D, 0xDE00]) 4) = Inr (JStr [0x1F600])"
  by (simp add: json_loads_def json_dumps_def encode_basestring_ascii_def escape_char_def
      hex4_def hex_digit_def decode_uXXXX_def hexval_def append_char_def skip_ws_def is_ws_def
      scan_numeral)


end
